theory Spec2Isabelle
  imports Main
begin

section \<open>Object identities and the shared heap\<close>

text \<open>
  JavaScript objects and arrays are compared by identity. Every object (a raw record, an
  instance, a facet instance, a collection) and every array is named by an address; the
  contents live in stores indexed by address, so two positions that hold the same array
  see each other's writes.
\<close>

type_synonym ref = nat

datatype error = NotImplemented | TypeError | ArrayTypeError | CannotInferType

section \<open>Facet Store\<close>

text \<open>
  Modelled from the spec: the module \<open>facet-storage\<close> (\<open>FacetStorage.attach\<close>,
  \<open>FacetStorage.get\<close>, \<open>FacetStorage.detach\<close>) is imported by the sources but is not
  among them. Section 4.2 of the specification: \<open>attach\<close> overwrites any existing binding
  for the triple (scope key, owner, child); \<open>get\<close> returns the facet or absent;
  \<open>detach\<close> removes the binding if present and is a no-op otherwise; a binding is not
  visible under another scope key.
\<close>

text \<open>
  A facet is any JavaScript value: the collection class is generic in the facet type
  (\<open>U = any\<close>), so besides a facet instance (an object) a number, a string, a boolean or
  \<open>undefined\<close> can be staged. Numbers are the integer-valued ones and \<open>NaN\<close>. A value is
  truthy unless it is \<open>0\<close>, \<open>NaN\<close>, the empty string, \<open>false\<close> or \<open>undefined\<close>; \<open>null\<close> is
  the \<open>None\<close> of an option.
\<close>

datatype facet = FObject ref | FNumber int | FNaN | FString string | FBoolean bool | FUndefined

fun is_truthy :: "facet \<Rightarrow> bool" where
  "is_truthy (FObject r) = True"
| "is_truthy (FNumber n) = (n \<noteq> 0)"
| "is_truthy FNaN = False"
| "is_truthy (FString s) = (s \<noteq> [])"
| "is_truthy (FBoolean b) = b"
| "is_truthy FUndefined = False"

type_synonym FacetStorage = "string \<times> ref \<times> ref \<Rightarrow> facet option"

definition FacetStorage_attach :: "string \<Rightarrow> ref \<Rightarrow> ref \<Rightarrow> facet \<Rightarrow> FacetStorage \<Rightarrow> FacetStorage" where
  "FacetStorage_attach ns owner child facet fs = fs((ns, owner, child) \<mapsto> facet)"

definition FacetStorage_get :: "string \<Rightarrow> ref \<Rightarrow> ref \<Rightarrow> FacetStorage \<Rightarrow> facet option" where
  "FacetStorage_get ns owner child fs = fs (ns, owner, child)"

definition FacetStorage_detach :: "string \<Rightarrow> ref \<Rightarrow> ref \<Rightarrow> FacetStorage \<Rightarrow> FacetStorage" where
  "FacetStorage_detach ns owner child fs = fs((ns, owner, child) := None)"

section \<open>Predicate Collection\<close>

text \<open>
  What \<open>console.log\<close> receives: an object by reference, or an array with its contents
  at the time of the call.
\<close>

datatype logged = LogObject ref | LogArray "ref list" | LogWeakMap ref

text \<open>
  The part of the world a collection shares with others: the arrays (the backing array
  \<open>_data\<close> is handed to the constructor and may be held elsewhere), the facet store, the
  weak maps of the second variant of the class, and the console.
\<close>

record heap =
  arrays :: "ref \<Rightarrow> ref list"
  facets :: FacetStorage
  weakmaps :: "ref \<Rightarrow> ref \<Rightarrow> ref set option"
  console :: "logged list"

definition push :: "ref \<Rightarrow> ref \<Rightarrow> heap \<Rightarrow> heap" where
  "push a x h = h\<lparr>arrays := (arrays h)(a := arrays h a @ [x])\<rparr>"

definition console_log :: "logged \<Rightarrow> heap \<Rightarrow> heap" where
  "console_log v h = h\<lparr>console := console h @ [v]\<rparr>"

subsection \<open>The class with its own added-set\<close>

text \<open>
  The private fields of \<open>PredicateImpl\<close>. \<open>_facet: U | null\<close> is an option of a facet
  value, \<open>None\<close> for \<open>null\<close>. The tests \<open>if (this._facet)\<close> of \<open>add\<close> and
  \<open>if (!this._facet)\<close> of \<open>update\<close> are tests of truthiness: a staged value that is not
  \<open>null\<close> but falsy takes the same branch as \<open>null\<close>, and stays in the field.
\<close>

record PredicateImpl =
  p_facet :: "facet option"
  p_diff :: "ref set"
  p_namespace :: string
  p_parent :: ref
  p_data :: ref

type_synonym pstate = "PredicateImpl \<times> heap"

definition new_PredicateImpl :: "string \<Rightarrow> ref \<Rightarrow> ref \<Rightarrow> PredicateImpl" where
  "new_PredicateImpl ns parent d =
     \<lparr>p_facet = None, p_diff = {}, p_namespace = ns, p_parent = parent, p_data = d\<rparr>"

definition withFacet :: "facet option \<Rightarrow> pstate \<Rightarrow> pstate" where
  "withFacet facet s = (case s of (p, h) \<Rightarrow> (p\<lparr>p_facet := facet\<rparr>, h))"

definition getFacet :: "ref \<Rightarrow> pstate \<Rightarrow> facet option" where
  "getFacet node s = (case s of (p, h) \<Rightarrow> FacetStorage_get (p_namespace p) (p_parent p) node (facets h))"

definition add :: "ref \<Rightarrow> pstate \<Rightarrow> pstate" where
  "add node s = (case s of (p, h) \<Rightarrow>
     (let (p1, h1) =
            (case p_facet p of
               Some f \<Rightarrow>
                 if is_truthy f
                 then (p\<lparr>p_facet := None\<rparr>,
                       h\<lparr>facets := FacetStorage_attach (p_namespace p) (p_parent p) node f (facets h)\<rparr>)
                 else (p, h)
             | None \<Rightarrow> (p, h));
          h2 = push (p_data p1) node h1
      in (p1\<lparr>p_diff := insert node (p_diff p1)\<rparr>, h2)))"

definition update :: "ref \<Rightarrow> pstate \<Rightarrow> pstate" where
  "update node s = (case s of (p, h) \<Rightarrow>
     (case p_facet p of
        None \<Rightarrow> (p, h\<lparr>facets := FacetStorage_detach (p_namespace p) (p_parent p) node (facets h)\<rparr>)
      | Some f \<Rightarrow>
          if is_truthy f
          then (p, h\<lparr>facets := FacetStorage_attach (p_namespace p) (p_parent p) node f (facets h)\<rparr>)
          else (p, h\<lparr>facets := FacetStorage_detach (p_namespace p) (p_parent p) node (facets h)\<rparr>)))"

definition get :: "pstate \<Rightarrow> ref list" where
  "get s = (case s of (p, h) \<Rightarrow> arrays h (p_data p))"

definition getDiff :: "pstate \<Rightarrow> ref set" where
  "getDiff s = (case s of (p, h) \<Rightarrow> p_diff p)"

text \<open>
  \<open>detach\<close> and \<open>delete\<close> print the parent and the backing array and then throw. The
  result is the raised error with the state at the throw.
\<close>

definition detach :: "ref \<Rightarrow> pstate \<Rightarrow> (error + unit) \<times> pstate" where
  "detach node s = (case s of (p, h) \<Rightarrow>
     (let h1 = console_log (LogObject (p_parent p)) h;
          h2 = console_log (LogArray (arrays h1 (p_data p))) h1
      in (Inl NotImplemented, (p, h2))))"

definition delete :: "ref \<Rightarrow> pstate \<Rightarrow> (error + unit) \<times> pstate" where
  "delete node s = (case s of (p, h) \<Rightarrow>
     (let h1 = console_log (LogObject (p_parent p)) h;
          h2 = console_log (LogArray (arrays h1 (p_data p))) h1
      in (Inl NotImplemented, (p, h2))))"

subsection \<open>The class with the added-sets in weak maps\<close>

text \<open>
  The second variant keeps no set of its own: the constructor receives two weak maps,
  \<open>diffPredicate\<close> and \<open>diffDelete\<close>, and enters an empty set for \<open>this\<close> in both.
  \<open>w_self\<close> is the identity of the collection, the key of its entries.
  \<open>this._diffPredicate.get(this)!\<close> is a read of \<open>undefined\<close> when the entry is gone,
  so \<open>add\<close> then raises a TypeError, after the push.
\<close>

record PredicateImplW =
  w_self :: ref
  w_facet :: "facet option"
  w_diffPredicate :: ref
  w_diffDelete :: ref
  w_namespace :: string
  w_parent :: ref
  w_data :: ref

type_synonym wstate = "PredicateImplW \<times> heap"

definition weakmap_set :: "ref \<Rightarrow> ref \<Rightarrow> ref set \<Rightarrow> heap \<Rightarrow> heap" where
  "weakmap_set m k v h = h\<lparr>weakmaps := (weakmaps h)(m := (weakmaps h m)(k \<mapsto> v))\<rparr>"

definition new_PredicateImplW :: "ref \<Rightarrow> ref \<Rightarrow> ref \<Rightarrow> string \<Rightarrow> ref \<Rightarrow> ref \<Rightarrow> heap \<Rightarrow> wstate" where
  "new_PredicateImplW self diffPredicate diffDelete ns parent d h =
     (let h1 = weakmap_set diffDelete self {} h;
          h2 = weakmap_set diffPredicate self {} h1
      in (\<lparr>w_self = self, w_facet = None, w_diffPredicate = diffPredicate,
           w_diffDelete = diffDelete, w_namespace = ns, w_parent = parent, w_data = d\<rparr>, h2))"

definition withFacetW :: "facet option \<Rightarrow> wstate \<Rightarrow> wstate" where
  "withFacetW facet s = (case s of (p, h) \<Rightarrow> (p\<lparr>w_facet := facet\<rparr>, h))"

definition getFacetW :: "ref \<Rightarrow> wstate \<Rightarrow> facet option" where
  "getFacetW node s = (case s of (p, h) \<Rightarrow> FacetStorage_get (w_namespace p) (w_parent p) node (facets h))"

definition addW :: "ref \<Rightarrow> wstate \<Rightarrow> (error + unit) \<times> wstate" where
  "addW node s = (case s of (p, h) \<Rightarrow>
     (let (p1, h1) =
            (case w_facet p of
               Some f \<Rightarrow>
                 if is_truthy f
                 then (p\<lparr>w_facet := None\<rparr>,
                       h\<lparr>facets := FacetStorage_attach (w_namespace p) (w_parent p) node f (facets h)\<rparr>)
                 else (p, h)
             | None \<Rightarrow> (p, h));
          h2 = push (w_data p1) node h1
      in (case weakmaps h2 (w_diffPredicate p1) (w_self p1) of
            None \<Rightarrow> (Inl TypeError, (p1, h2))
          | Some d \<Rightarrow> (Inr (), (p1, weakmap_set (w_diffPredicate p1) (w_self p1) (insert node d) h2)))))"

definition updateW :: "ref \<Rightarrow> wstate \<Rightarrow> wstate" where
  "updateW node s = (case s of (p, h) \<Rightarrow>
     (case w_facet p of
        None \<Rightarrow> (p, h\<lparr>facets := FacetStorage_detach (w_namespace p) (w_parent p) node (facets h)\<rparr>)
      | Some f \<Rightarrow>
          if is_truthy f
          then (p, h\<lparr>facets := FacetStorage_attach (w_namespace p) (w_parent p) node f (facets h)\<rparr>)
          else (p, h\<lparr>facets := FacetStorage_detach (w_namespace p) (w_parent p) node (facets h)\<rparr>)))"

definition getW :: "wstate \<Rightarrow> ref list" where
  "getW s = (case s of (p, h) \<Rightarrow> arrays h (w_data p))"

definition getDiffW :: "wstate \<Rightarrow> ref set option" where
  "getDiffW s = (case s of (p, h) \<Rightarrow> weakmaps h (w_diffPredicate p) (w_self p))"

definition detachW :: "ref \<Rightarrow> wstate \<Rightarrow> (error + unit) \<times> wstate" where
  "detachW node s = (case s of (p, h) \<Rightarrow>
     (let h1 = console_log (LogWeakMap (w_diffDelete p)) h;
          h2 = console_log (LogObject (w_parent p)) h1;
          h3 = console_log (LogArray (arrays h2 (w_data p))) h2
      in (Inl NotImplemented, (p, h3))))"

definition deleteW :: "ref \<Rightarrow> wstate \<Rightarrow> (error + unit) \<times> wstate" where
  "deleteW node s = (case s of (p, h) \<Rightarrow>
     (let h1 = console_log (LogWeakMap (w_diffDelete p)) h;
          h2 = console_log (LogObject (w_parent p)) h1;
          h3 = console_log (LogArray (arrays h2 (w_data p))) h2
      in (Inl NotImplemented, (p, h3))))"

section \<open>The predicate decorator\<close>

text \<open>
  \<open>options.type\<close> is absent, one type, or an array of types. A type is a value of the
  enumeration \<open>PredicateType\<close> (a string) or a class constructor (a function, named by
  its class). A function is truthy; a string is truthy unless it is empty.
\<close>

datatype ptype = PredicateTypeValue string | Constructor string

datatype type_option = NoType | OneType ptype | ArrayType "ptype list"

record IOptions =
  opt_type :: type_option
  opt_name :: "string option"

fun truthy :: "ptype \<Rightarrow> bool" where
  "truthy (PredicateTypeValue s) = (s \<noteq> [])"
| "truthy (Constructor c) = True"

fun is_function :: "ptype \<Rightarrow> bool" where
  "is_function (PredicateTypeValue s) = False"
| "is_function (Constructor c) = True"

definition toLowerCase :: "string \<Rightarrow> string" where
  "toLowerCase s =
     map (\<lambda>c. let n = (of_char c :: nat) in if 65 \<le> n \<and> n \<le> 90 then char_of (n + 32) else c) s"

text \<open>
  What the decorator reads from its surroundings: the values of the enumeration
  \<open>PredicateType\<close> and the function \<open>PredicateTypeUtils.convertReflectedToPredicateType\<close>
  (neither is among the sources, both are parameters), and the reflected
  \<open>design:type\<close> of the property, a constructor given by its name, or \<open>undefined\<close>.
\<close>

record reflection =
  predicateTypes :: "string list"
  convertReflectedToPredicateType :: "string \<Rightarrow> ptype option"
  designType :: "string option"

text \<open>
  \<open>getPropertyPredicateType\<close> reads \<open>reflected.name\<close>: with no reflected type that is a
  property read on \<open>undefined\<close>, a TypeError.
\<close>

definition getPropertyPredicateType :: "reflection \<Rightarrow> error + ptype option" where
  "getPropertyPredicateType env =
     (case designType env of
        None \<Rightarrow> Inl TypeError
      | Some reflected \<Rightarrow> Inr (convertReflectedToPredicateType env (toLowerCase reflected)))"

text \<open>The result of \<open>sanitizePredicateType\<close>: \<open>isNodePredicate\<close>, \<open>isArray\<close>, \<open>type\<close>.\<close>

record sanitized =
  isNodePredicate :: bool
  isArray :: bool
  type_of :: "ptype option"

text \<open>\<open>type = type || getPropertyPredicateType(target, propertyName)\<close>.\<close>

definition fallback :: "reflection \<Rightarrow> bool \<Rightarrow> bool \<Rightarrow> ptype option \<Rightarrow> error + sanitized" where
  "fallback env isNode isArr ty =
     (if (case ty of Some t \<Rightarrow> truthy t | None \<Rightarrow> False)
      then Inr \<lparr>isNodePredicate = isNode, isArray = isArr, type_of = ty\<rparr>
      else (case getPropertyPredicateType env of
              Inl e \<Rightarrow> Inl e
            | Inr t \<Rightarrow> Inr \<lparr>isNodePredicate = isNode, isArray = isArr, type_of = t\<rparr>))"

definition sanitizePredicateType :: "reflection \<Rightarrow> IOptions \<Rightarrow> error + sanitized" where
  "sanitizePredicateType env options =
     (case opt_type options of
        ArrayType ts \<Rightarrow>
          (case ts of
             [t] \<Rightarrow> fallback env (is_function t) True (Some t)
           | _ \<Rightarrow> Inl ArrayTypeError)
      | OneType t \<Rightarrow> fallback env False False (Some t)
      | NoType \<Rightarrow> fallback env False False None)"

text \<open>
  The metadata the decorator hands to \<open>addPredicateMetadata\<close>. The registrations with
  the transformer library (\<open>Expose\<close>, \<open>Type\<close>, \<open>Transform\<close>) and with the metadata
  storage do not raise and are not part of the result.
\<close>

record PredicateMetadataArgs =
  md_type :: string
  md_name :: string
  md_isArray :: bool
  md_target :: string
  md_propertyName :: string

definition isPredicateType :: "reflection \<Rightarrow> ptype \<Rightarrow> bool" where
  "isPredicateType env t =
     (case t of PredicateTypeValue s \<Rightarrow> s \<in> set (predicateTypes env) | Constructor c \<Rightarrow> False)"

definition Predicate :: "reflection \<Rightarrow> IOptions \<Rightarrow> string \<Rightarrow> string \<Rightarrow> error + PredicateMetadataArgs" where
  "Predicate env options target propertyName =
     (case sanitizePredicateType env options of
        Inl e \<Rightarrow> Inl e
      | Inr r \<Rightarrow>
          (case type_of r of
             None \<Rightarrow> Inl CannotInferType
           | Some t \<Rightarrow>
               if \<not> truthy t then Inl CannotInferType
               else
                 Inr \<lparr>md_type = (case t of
                                   PredicateTypeValue s \<Rightarrow> if isPredicateType env t then s else ''node''
                                 | Constructor c \<Rightarrow> ''node''),
                      md_name = (case opt_name options of
                                   None \<Rightarrow> target @ ''.'' @ propertyName
                                 | Some n \<Rightarrow> if n = [] then target @ ''.'' @ propertyName else n),
                      md_isArray = isArray r,
                      md_target = target,
                      md_propertyName = propertyName\<rparr>))"

text \<open>
  The words of the claim. The type is given in the options when \<open>options.type\<close>, or the
  one element of the array, is a truthy type; it is inferable when the reflected type
  exists and converts to a truthy type; the array is malformed when it does not hold
  exactly one element.
\<close>

definition type_given :: "IOptions \<Rightarrow> bool" where
  "type_given options =
     (case opt_type options of
        OneType t \<Rightarrow> truthy t
      | ArrayType ts \<Rightarrow> (case ts of [t] \<Rightarrow> truthy t | _ \<Rightarrow> False)
      | NoType \<Rightarrow> False)"

definition type_inferable :: "reflection \<Rightarrow> bool" where
  "type_inferable env =
     (case designType env of
        None \<Rightarrow> False
      | Some reflected \<Rightarrow>
          (case convertReflectedToPredicateType env (toLowerCase reflected) of
             None \<Rightarrow> False
           | Some t \<Rightarrow> truthy t))"

definition malformed_array :: "IOptions \<Rightarrow> bool" where
  "malformed_array options =
     (case opt_type options of ArrayType ts \<Rightarrow> length ts \<noteq> 1 | _ \<Rightarrow> False)"

section \<open>Raw graph data\<close>

text \<open>
  A raw record is an object: its own properties in insertion order, each a scalar (a
  string), an array or a nested object. An array holds records and scalars; arrays are
  never written by the mapper, records are (\<open>expand\<close> merges into them in place). The
  input record shape has a \<open>uid\<close> string field, a type tag \<open>dgraph.type\<close>, scalar
  fields, and edge fields that are arrays of records.
\<close>

datatype jval = JScalar string | JArray ref | JObject ref

datatype elem = ERecord ref | EScalar string

type_synonym fields = "(string \<times> jval) list"

text \<open>The property read \<open>x[key]\<close>; \<open>None\<close> is \<open>undefined\<close>.\<close>

definition field :: "fields \<Rightarrow> string \<Rightarrow> jval option" where
  "field fs key = map_of fs key"

text \<open>
  The property write \<open>x[key] = v\<close>: an existing property keeps its place, a new one is
  appended.
\<close>

fun set_field :: "string \<Rightarrow> jval \<Rightarrow> fields \<Rightarrow> fields" where
  "set_field k v [] = [(k, v)]"
| "set_field k v ((k', v') # fs) = (if k' = k then (k, v) # fs else (k', v') # set_field k v fs)"

text \<open>\<open>Object.assign(target, source)\<close>: every own property of the source is written to the target, in order.\<close>

definition Object_assign :: "fields \<Rightarrow> fields \<Rightarrow> fields" where
  "Object_assign target source = fold (\<lambda>(k, v) t. set_field k v t) source target"

definition Object_keys :: "fields \<Rightarrow> string list" where
  "Object_keys fs = map fst fs"

text \<open>
  The string a template literal makes of a value: \<open>undefined\<close> for a missing property,
  the string itself, \<open>[object Object]\<close> for an object, and for an array its elements so
  converted and joined by commas.
\<close>

fun join :: "string \<Rightarrow> string list \<Rightarrow> string" where
  "join sep [] = []"
| "join sep [x] = x"
| "join sep (x # y # ys) = x @ sep @ join sep (y # ys)"

definition elem_string :: "elem \<Rightarrow> string" where
  "elem_string e = (case e of ERecord r \<Rightarrow> ''[object Object]'' | EScalar s \<Rightarrow> s)"

definition template :: "(ref \<Rightarrow> elem list) \<Rightarrow> jval option \<Rightarrow> string" where
  "template els v =
     (case v of
        None \<Rightarrow> ''undefined''
      | Some (JScalar s) \<Rightarrow> s
      | Some (JObject _) \<Rightarrow> ''[object Object]''
      | Some (JArray a) \<Rightarrow> join '','' (map elem_string (els a)))"

section \<open>Object Mapper, phase A: expand\<close>

text \<open>
  The state \<open>expand\<close> works on: the set \<open>visited\<close> of visiting keys and the records,
  which it writes in place. Two logs are not in the program: \<open>descents\<close> holds, in
  order, the edge (parent uid, field name, child uid) of every recursive call, so that the
  calls can be counted, and \<open>calls\<close> the records \<open>expand\<close> was called on.
\<close>

record estate =
  visited :: "string set"
  descents :: "(string \<times> string \<times> string) list"
  calls :: "ref list"
  objs :: "ref \<Rightarrow> fields"

fun forEach :: "('a \<Rightarrow> 's \<Rightarrow> 's option) \<Rightarrow> 'a list \<Rightarrow> 's \<Rightarrow> 's option" where
  "forEach f [] s = Some s"
| "forEach f (x # xs) s = (case f x s of None \<Rightarrow> None | Some s' \<Rightarrow> forEach f xs s')"

text \<open>
  The resource index maps a uid value to the record stored under it; \<open>undefined\<close> is
  not a key of it.
\<close>

type_synonym resource = "jval \<Rightarrow> ref option"

definition uid_of :: "(ref \<Rightarrow> fields) \<Rightarrow> elem \<Rightarrow> jval option" where
  "uid_of os e = (case e of ERecord r \<Rightarrow> field (os r) ''uid'' | EScalar s \<Rightarrow> None)"

definition resource_get :: "resource \<Rightarrow> jval option \<Rightarrow> ref option" where
  "resource_get resource u = (case u of None \<Rightarrow> None | Some v \<Rightarrow> resource v)"

text \<open>
  \<open>if (resource.has(source.uid)) Object.assign(source, resource.get(source.uid))\<close>.
\<close>

definition merge :: "resource \<Rightarrow> ref \<Rightarrow> (ref \<Rightarrow> fields) \<Rightarrow> (ref \<Rightarrow> fields)" where
  "merge resource source os =
     (case resource_get resource (field (os source) ''uid'') of
        None \<Rightarrow> os
      | Some r \<Rightarrow> os(source := Object_assign (os source) (os r)))"

definition visitingKey :: "string \<times> string \<times> string \<Rightarrow> string" where
  "visitingKey e = (case e of (parent, key, child) \<Rightarrow> parent @ '':'' @ key @ '':'' @ child)"

text \<open>
  The body of the inner loop, for one element \<open>node\<close> of the array \<open>source[key]\<close>;
  \<open>recur\<close> is the recursive call.
\<close>

definition visit_node ::
  "(elem \<Rightarrow> estate \<Rightarrow> estate option) \<Rightarrow> (ref \<Rightarrow> elem list) \<Rightarrow> ref \<Rightarrow> string \<Rightarrow> elem \<Rightarrow> estate \<Rightarrow> estate option" where
  "visit_node recur els source key node st =
     (let edge = (template els (field (objs st source) ''uid''), key, template els (uid_of (objs st) node))
      in if visitingKey edge \<in> visited st then Some st
         else recur node (st\<lparr>visited := insert (visitingKey edge) (visited st),
                              descents := descents st @ [edge]\<rparr>))"

text \<open>The body of the outer loop, for one key of the record.\<close>

definition visit_key ::
  "(elem \<Rightarrow> estate \<Rightarrow> estate option) \<Rightarrow> (ref \<Rightarrow> elem list) \<Rightarrow> ref \<Rightarrow> string \<Rightarrow> estate \<Rightarrow> estate option" where
  "visit_key recur els source key st =
     (if key = ''dgraph.type'' then Some st
      else (case field (objs st source) key of
              Some (JArray a) \<Rightarrow> forEach (visit_node recur els source key) (els a) st
            | _ \<Rightarrow> Some st))"

definition expand_record ::
  "(elem \<Rightarrow> estate \<Rightarrow> estate option) \<Rightarrow> (ref \<Rightarrow> elem list) \<Rightarrow> resource \<Rightarrow> ref \<Rightarrow> estate \<Rightarrow> estate option" where
  "expand_record recur els resource source st =
     (let st1 = st\<lparr>objs := merge resource source (objs st), calls := calls st @ [source]\<rparr>
      in forEach (visit_key recur els source) (Object_keys (objs st1 source)) st1)"

text \<open>
  \<open>expand\<close>. The recursion of the program is bounded by nothing but the visited set, so
  the model carries fuel, the depth of recursion allowed: \<open>None\<close> is a run that needs a
  deeper recursion. A scalar element has no \<open>uid\<close> and no array-valued property, and
  \<open>expand\<close> on it does nothing.
\<close>

primrec expand :: "nat \<Rightarrow> (ref \<Rightarrow> elem list) \<Rightarrow> resource \<Rightarrow> elem \<Rightarrow> estate \<Rightarrow> estate option" where
  "expand 0 = (\<lambda>els resource source st.
     case source of EScalar s \<Rightarrow> Some st | ERecord r \<Rightarrow> None)"
| "expand (Suc n) = (\<lambda>els resource source st.
     case source of
       EScalar s \<Rightarrow> Some st
     | ERecord r \<Rightarrow> expand_record (expand n els resource) els resource r st)"

text \<open>
  The strings a visiting key can be made of in a given graph: the template strings of the
  values held by some property (and of \<open>undefined\<close>), and the property names.
\<close>

definition all_values :: "(ref \<Rightarrow> fields) \<Rightarrow> jval set" where
  "all_values os = (\<Union>r. snd ` set (os r))"

definition all_names :: "(ref \<Rightarrow> fields) \<Rightarrow> string set" where
  "all_names os = (\<Union>r. fst ` set (os r))"

definition edge_keys :: "(ref \<Rightarrow> elem list) \<Rightarrow> (ref \<Rightarrow> fields) \<Rightarrow> string set" where
  "edge_keys els os =
     (\<lambda>(p, k, c). visitingKey (template els p, k, template els c)) `
       ((insert None (Some ` all_values os)) \<times> all_names os \<times> (insert None (Some ` all_values os)))"

text \<open>A graph is finite when only finitely many records have a property.\<close>

definition finite_graph :: "(ref \<Rightarrow> fields) \<Rightarrow> bool" where
  "finite_graph os = finite {r. os r \<noteq> []}"

text \<open>
  The invariant of \<open>expand\<close> on a graph that starts as \<open>os0\<close> with the visited set \<open>X0\<close>:
  no property name or value is new, every descent was made under a key that was not
  visited, and the visited set is \<open>X0\<close> with the keys of the descents.
\<close>

definition expand_inv :: "(ref \<Rightarrow> elem list) \<Rightarrow> (ref \<Rightarrow> fields) \<Rightarrow> string set \<Rightarrow> estate \<Rightarrow> bool" where
  "expand_inv els os0 X0 st \<longleftrightarrow>
     all_values (objs st) \<subseteq> all_values os0 \<and> all_names (objs st) \<subseteq> all_names os0
     \<and> distinct (map visitingKey (descents st))
     \<and> visited st = X0 \<union> visitingKey ` set (descents st)
     \<and> X0 \<inter> visitingKey ` set (descents st) = {}
     \<and> visitingKey ` set (descents st) \<subseteq> edge_keys els os0"






section \<open>Metadata Registry\<close>

text \<open>
  Modelled from the spec: \<open>MetadataStorage\<close> is imported by the mapper but is not among
  the sources. Sections 3 and 4.1 of the specification: per type name the ordered list of
  property descriptors (property name, external name), the ordered list of predicate
  descriptors (property name, external predicate name, target type, optional facet type),
  and per facet type name the list of facet descriptors (facet property name); a lookup
  of an unknown name finds nothing. The mapper reads \<open>args.propertyName\<close>,
  \<open>args.name\<close>, \<open>args.type()\<close> and \<open>args.facet\<close>; classes are given by their names.
\<close>

record PropertyMetadata =
  prop_propertyName :: string
  prop_name :: string

record PredicateMetadata =
  pred_propertyName :: string
  pred_name :: string
  pred_type :: string
  pred_facet :: "string option"

record FacetMetadata =
  facet_propertyName :: string

record MetadataStorage =
  md_properties :: "string \<Rightarrow> PropertyMetadata list option"
  md_predicates :: "string \<Rightarrow> PredicateMetadata list option"
  md_facets :: "string \<Rightarrow> FacetMetadata list option"

section \<open>Object Mapper, phase B: transform\<close>

text \<open>
  What the mapper calls and the sources do not hold: the metadata registry; the library
  function \<open>plainToClass\<close>, of which \<open>plainToClass_props\<close> gives the own properties of
  the instance made of a class and a plain object; and of the diff tracker what
  \<open>trackProperty\<close> does to the dirty marks of its instance when it installs the
  observation of a property (nothing, if tracking starts clean).
\<close>

record env =
  metadata :: MetadataStorage
  plainToClass_props :: "string \<Rightarrow> fields \<Rightarrow> fields"
  on_track :: "string \<Rightarrow> string set \<Rightarrow> string set"

text \<open>
  The state of the transform. Instances, instance arrays and facet instances are new
  objects, taken from the counter \<open>fresh\<close>; \<open>heap\<close> holds the instance arrays and the
  facet store, as the predicate collections see them. \<open>accessors\<close> holds, for an instance
  and a property name, whether the accessor pair of \<open>trackPredicate\<close> is installed and
  what its \<open>storedValue\<close> is. \<open>storage\<close> is the memoization table of the transform, from
  raw array to instance array. Two logs are not in the program: \<open>produced\<close> holds the
  pair (raw array, instance array) of every conversion, \<open>returns\<close> the pair (argument,
  result) of every return of \<open>plainToClassExecutor\<close>.
\<close>

record mstate =
  heap :: heap
  fresh :: ref
  class_of :: "ref \<Rightarrow> string"
  props :: "ref \<Rightarrow> fields"
  dirty :: "ref \<Rightarrow> string set"
  accessors :: "ref \<times> string \<Rightarrow> PredicateImpl option option"
  storage :: "ref \<Rightarrow> ref option"
  produced :: "(ref \<times> ref) list"
  returns :: "(ref \<times> ref) list"

subsection \<open>Diff Tracker\<close>

text \<open>
  Modelled from the spec: \<open>DiffTracker\<close> is imported by the mapper but is not among the
  sources. Section 4.3 of the specification: \<open>diffOf\<close> is the set of dirty property names
  of an instance; \<open>purgeInstance\<close> clears all dirty marks of the instance;
  \<open>trackProperty\<close> installs the observation of one property of one instance, and touches
  the marks of no other instance.
\<close>

definition diffOf :: "ref \<Rightarrow> mstate \<Rightarrow> string set" where
  "diffOf instance st = dirty st instance"

definition purgeInstance :: "ref \<Rightarrow> mstate \<Rightarrow> mstate" where
  "purgeInstance instance st = st\<lparr>dirty := (dirty st)(instance := {})\<rparr>"

definition trackProperty :: "env \<Rightarrow> ref \<Rightarrow> string \<Rightarrow> string option \<Rightarrow> mstate \<Rightarrow> mstate" where
  "trackProperty env instance propertyName name st =
     st\<lparr>dirty := (dirty st)(instance := on_track env propertyName (dirty st instance))\<rparr>"

subsection \<open>plainToClass\<close>

text \<open>
  \<open>plainToClass(cls, plain)\<close> on an object makes one new instance of the class. On an
  array it makes a new array with one value per element, in order: an instance of the
  class for a record, and for a scalar the scalar itself, which is taken here as an object
  of class \<open>String\<close> without properties.
\<close>

definition new_instance :: "env \<Rightarrow> string \<Rightarrow> fields \<Rightarrow> mstate \<Rightarrow> ref \<times> mstate" where
  "new_instance env cls plain st =
     (fresh st,
      st\<lparr>fresh := Suc (fresh st),
         class_of := (class_of st)(fresh st := cls),
         props := (props st)(fresh st := plainToClass_props env cls plain)\<rparr>)"

fun plainToClass_elems :: "env \<Rightarrow> string \<Rightarrow> (ref \<Rightarrow> fields) \<Rightarrow> elem list \<Rightarrow> mstate \<Rightarrow> ref list \<times> mstate" where
  "plainToClass_elems env cls os [] st = ([], st)"
| "plainToClass_elems env cls os (e # es) st =
     (let (i, st1) = (case e of
                        ERecord r \<Rightarrow> new_instance env cls (os r) st
                      | EScalar s \<Rightarrow> new_instance env ''String'' [] st);
          (is, st2) = plainToClass_elems env cls os es st1
      in (i # is, st2))"

definition plainToClass_array :: "env \<Rightarrow> string \<Rightarrow> (ref \<Rightarrow> fields) \<Rightarrow> elem list \<Rightarrow> mstate \<Rightarrow> ref \<times> mstate" where
  "plainToClass_array env cls os es st =
     (let (instances, st1) = plainToClass_elems env cls os es st
      in (fresh st1,
          st1\<lparr>fresh := Suc (fresh st1),
              heap := (heap st1)\<lparr>arrays := (arrays (heap st1))(fresh st1 := instances)\<rparr>\<rparr>))"

subsection \<open>Tracking\<close>

definition trackProperties :: "env \<Rightarrow> ref \<Rightarrow> mstate \<Rightarrow> mstate" where
  "trackProperties env instance st =
     (case md_properties (metadata env) (class_of st instance) of
        None \<Rightarrow> st
      | Some properties \<Rightarrow>
          fold (\<lambda>prop. trackProperty env instance (prop_propertyName prop) (Some (prop_name prop)))
            properties st)"

text \<open>
  \<open>trackPredicate\<close> defines the accessor pair of the property on the instance, with a
  \<open>storedValue\<close> that is not set.
\<close>

definition trackPredicate :: "ref \<Rightarrow> PredicateMetadata \<Rightarrow> mstate \<Rightarrow> mstate" where
  "trackPredicate instance md st =
     st\<lparr>accessors := (accessors st)((instance, pred_propertyName md) := Some None)\<rparr>"

definition delete_field :: "string \<Rightarrow> fields \<Rightarrow> fields" where
  "delete_field k fs = filter (\<lambda>p. fst p \<noteq> k) fs"

text \<open>
  One step of the \<open>reduce\<close> over the facet descriptors: the namespaced property of the
  element \<open>v\<close> is moved to the plain facet object. A property set to \<open>undefined\<close> reads as
  an absent one and is kept absent.
\<close>

definition move_facet_field :: "string \<Rightarrow> FacetMetadata \<Rightarrow> fields \<times> fields \<Rightarrow> fields \<times> fields" where
  "move_facet_field name f s = (case s of (acc, v) \<Rightarrow>
     (let facetPropertyName = name @ ''|'' @ facet_propertyName f
      in ((case field v facetPropertyName of
             Some x \<Rightarrow> set_field (facet_propertyName f) x acc
           | None \<Rightarrow> delete_field (facet_propertyName f) acc),
          delete_field facetPropertyName v)))"

text \<open>The body of the loop of the setter, for one element \<open>v\<close> of the value.\<close>

definition setter_elem :: "env \<Rightarrow> ref \<Rightarrow> PredicateMetadata \<Rightarrow> FacetMetadata list \<Rightarrow> ref \<Rightarrow> mstate \<Rightarrow> mstate" where
  "setter_elem env instance md fs v st =
     (let (plain, v') = fold (move_facet_field (pred_name md)) fs ([], props st v);
          st1 = st\<lparr>props := (props st)(v := v')\<rparr>;
          (facetInstance, st2) =
             new_instance env (case pred_facet md of Some c \<Rightarrow> c | None \<Rightarrow> ''Object'') plain st1;
          st3 = st2\<lparr>heap := (heap st2)\<lparr>facets :=
                   FacetStorage_attach (pred_propertyName md) instance v (FObject facetInstance) (facets (heap st2))\<rparr>\<rparr>;
          st4 = fold (\<lambda>f. trackProperty env facetInstance (facet_propertyName f) None) fs st3;
          st5 = purgeInstance facetInstance st4
      in purgeInstance v st5)"

text \<open>
  The setter of the accessor pair, called with an array: the array is wrapped in a new
  collection, every element gets its facet, and the collection is stored. (The mapper
  assigns arrays only; an assignment of a collection keeps the collection.)
\<close>

definition setter :: "env \<Rightarrow> ref \<Rightarrow> PredicateMetadata \<Rightarrow> ref \<Rightarrow> mstate \<Rightarrow> mstate" where
  "setter env instance md value st =
     (let coll = new_PredicateImpl (pred_propertyName md) instance value;
          fs = (case md_facets (metadata env) (case pred_facet md of Some c \<Rightarrow> c | None \<Rightarrow> []) of
                  Some l \<Rightarrow> l | None \<Rightarrow> []);
          st1 = fold (setter_elem env instance md fs) (arrays (heap st) value) st
      in st1\<lparr>accessors := (accessors st1)((instance, pred_propertyName md) := Some (Some coll))\<rparr>)"

text \<open>The getter: the stored collection, or a new empty one, which it stores.\<close>

definition getter :: "ref \<Rightarrow> string \<Rightarrow> mstate \<Rightarrow> PredicateImpl \<times> mstate" where
  "getter instance propertyName st =
     (case accessors st (instance, propertyName) of
        Some (Some coll) \<Rightarrow> (coll, st)
      | _ \<Rightarrow>
          (let coll = new_PredicateImpl propertyName instance (fresh st)
           in (coll,
               st\<lparr>fresh := Suc (fresh st),
                  heap := (heap st)\<lparr>arrays := (arrays (heap st))(fresh st := [])\<rparr>,
                  accessors := (accessors st)((instance, propertyName) := Some (Some coll))\<rparr>)))"

subsection \<open>plainToClassExecutor\<close>

text \<open>
  A run ends in a value, in an error (\<open>Inl\<close>), or it needs more fuel (\<open>None\<close>).
\<close>

type_synonym 'a result = "(error + 'a) option"

fun forEachE :: "('a \<Rightarrow> 's \<Rightarrow> 's result) \<Rightarrow> 'a list \<Rightarrow> 's \<Rightarrow> 's result" where
  "forEachE f [] s = Some (Inr s)"
| "forEachE f (x # xs) s =
     (case f x s of
        Some (Inr s') \<Rightarrow> forEachE f xs s'
      | Some (Inl e) \<Rightarrow> Some (Inl e)
      | None \<Rightarrow> None)"

text \<open>
  The body of the loop over the predicates of an instance \<open>ins\<close> made of the raw element
  \<open>raw\<close>; \<open>recur\<close> is the recursive call. \<open>_preds\<close> is the raw property under the
  predicate's name: nothing happens when it is absent or an empty string.
\<close>

definition visit_predicate ::
  "(string \<Rightarrow> jval \<Rightarrow> mstate \<Rightarrow> (ref \<times> mstate) result) \<Rightarrow> env \<Rightarrow> (ref \<Rightarrow> fields) \<Rightarrow> ref \<Rightarrow> elem \<Rightarrow>
   PredicateMetadata \<Rightarrow> mstate \<Rightarrow> mstate result" where
  "visit_predicate recur env os ins raw pred st =
     (let st1 = trackPredicate ins pred st
      in case (case raw of ERecord r \<Rightarrow> field (os r) (pred_name pred) | EScalar s \<Rightarrow> None) of
           None \<Rightarrow> Some (Inr st1)
         | Some preds \<Rightarrow>
             if preds = JScalar [] then Some (Inr st1)
             else (case recur (pred_type pred) preds st1 of
                     Some (Inr (instances, st2)) \<Rightarrow> Some (Inr (setter env ins pred instances st2))
                   | Some (Inl e) \<Rightarrow> Some (Inl e)
                   | None \<Rightarrow> None))"

definition visit_instance ::
  "(string \<Rightarrow> jval \<Rightarrow> mstate \<Rightarrow> (ref \<times> mstate) result) \<Rightarrow> env \<Rightarrow> (ref \<Rightarrow> fields) \<Rightarrow> ref \<times> elem \<Rightarrow>
   mstate \<Rightarrow> mstate result" where
  "visit_instance recur env os p st = (case p of (ins, raw) \<Rightarrow>
     (let st1 = trackProperties env ins st
      in case md_predicates (metadata env) (class_of st1 ins) of
           None \<Rightarrow> Some (Inr st1)
         | Some predicates \<Rightarrow> forEachE (visit_predicate recur env os ins raw) predicates st1))"

text \<open>
  The body of \<open>plainToClassExecutor\<close>. A value that is no array is no key of the weak map
  and has no \<open>forEach\<close>: a TypeError. For an array the table is consulted first; on a
  miss the array is converted, the result is entered in the table, and only then the
  instances are visited.
\<close>

definition plainToClassExecutor_body ::
  "(string \<Rightarrow> jval \<Rightarrow> mstate \<Rightarrow> (ref \<times> mstate) result) \<Rightarrow> env \<Rightarrow> (ref \<Rightarrow> fields) \<Rightarrow> (ref \<Rightarrow> elem list) \<Rightarrow>
   string \<Rightarrow> jval \<Rightarrow> mstate \<Rightarrow> (ref \<times> mstate) result" where
  "plainToClassExecutor_body recur env os els cls plain st =
     (case plain of
        JScalar s \<Rightarrow> Some (Inl TypeError)
      | JObject x \<Rightarrow> Some (Inl TypeError)
      | JArray a \<Rightarrow>
          (case storage st a of
             Some instances \<Rightarrow> Some (Inr (instances, st\<lparr>returns := returns st @ [(a, instances)]\<rparr>))
           | None \<Rightarrow>
               (let (instances, st1) = plainToClass_array env cls os (els a) st;
                    st2 = st1\<lparr>storage := (storage st1)(a \<mapsto> instances),
                              produced := produced st1 @ [(a, instances)]\<rparr>
                in case forEachE (visit_instance recur env os)
                          (zip (arrays (heap st2) instances) (els a)) st2 of
                     Some (Inr st3) \<Rightarrow>
                       Some (Inr (instances, st3\<lparr>returns := returns st3 @ [(a, instances)]\<rparr>))
                   | Some (Inl e) \<Rightarrow> Some (Inl e)
                   | None \<Rightarrow> None)))"

primrec plainToClassExecutor ::
  "nat \<Rightarrow> env \<Rightarrow> (ref \<Rightarrow> fields) \<Rightarrow> (ref \<Rightarrow> elem list) \<Rightarrow> string \<Rightarrow> jval \<Rightarrow> mstate \<Rightarrow> (ref \<times> mstate) result" where
  "plainToClassExecutor 0 = (\<lambda>env os els cls plain st. None)"
| "plainToClassExecutor (Suc n) = (\<lambda>env os els cls plain st.
     plainToClassExecutor_body (plainToClassExecutor n env os els) env os els cls plain st)"

text \<open>\<open>transform\<close> starts with a new, empty table.\<close>

definition transform ::
  "nat \<Rightarrow> env \<Rightarrow> (ref \<Rightarrow> fields) \<Rightarrow> (ref \<Rightarrow> elem list) \<Rightarrow> string \<Rightarrow> ref \<Rightarrow> mstate \<Rightarrow> (ref \<times> mstate) result" where
  "transform n env os els entryCls plain st =
     plainToClassExecutor n env os els entryCls (JArray plain)
       (st\<lparr>storage := Map.empty, produced := [], returns := []\<rparr>)"

subsection \<open>The builder\<close>



subsection \<open>Invariants of the transform\<close>

text \<open>
  How a state \<open>s'\<close> extends a state \<open>s\<close> in a run of the transform: objects are only
  added, the arrays that exist are not written, an entry of the table stays as it is, and
  the dirty marks of an object that exists, the objects in \<open>X\<close> apart, only go away.
\<close>

definition tr_ext :: "ref set \<Rightarrow> mstate \<Rightarrow> mstate \<Rightarrow> bool" where
  "tr_ext X s s' \<longleftrightarrow>
     fresh s \<le> fresh s'
     \<and> (\<forall>x. x < fresh s \<longrightarrow> arrays (heap s') x = arrays (heap s) x)
     \<and> (\<forall>i. i < fresh s \<and> i \<notin> X \<longrightarrow> dirty s' i \<subseteq> dirty s i)
     \<and> (\<forall>a ia. storage s a = Some ia \<longrightarrow> storage s' a = Some ia)"

text \<open>
  The invariant of a transform whose objects start at \<open>f0\<close>: the table is the set of the
  conversions made, no raw array was converted twice, every return is the table's entry
  for its argument, the arrays of the table hold objects of the run, an object that does
  not exist yet has no dirty mark, and a collection stored on an object of the run has an
  empty added-set and wraps an array that was returned; a facet of an owner of the run is
  an object of the run.
\<close>

definition facet_within :: "ref \<Rightarrow> ref \<Rightarrow> facet \<Rightarrow> bool" where
  "facet_within lo hi v = (case v of FObject f \<Rightarrow> lo \<le> f \<and> f < hi | _ \<Rightarrow> False)"

definition tr_inv :: "ref \<Rightarrow> mstate \<Rightarrow> bool" where
  "tr_inv f0 s \<longleftrightarrow>
     f0 \<le> fresh s
     \<and> (\<forall>a ia. (a, ia) \<in> set (produced s) \<longrightarrow> storage s a = Some ia)
     \<and> (\<forall>a ia. (a, ia) \<in> set (returns s) \<longrightarrow> storage s a = Some ia)
     \<and> (\<forall>a ia. storage s a = Some ia \<longrightarrow>
           (a, ia) \<in> set (produced s) \<and> f0 \<le> ia \<and> ia < fresh s
           \<and> (\<forall>v\<in>set (arrays (heap s) ia). f0 \<le> v \<and> v < fresh s))
     \<and> distinct (map fst (produced s))
     \<and> (\<forall>i. fresh s \<le> i \<longrightarrow> dirty s i = {})
     \<and> (\<forall>i p c. f0 \<le> i \<and> accessors s (i, p) = Some (Some c) \<longrightarrow>
           p_diff c = {} \<and> (\<exists>a. (a, p_data c) \<in> set (returns s)))
     \<and> (\<forall>ns ow c f. f0 \<le> ow \<and> facets (heap s) (ns, ow, c) = Some f \<longrightarrow> facet_within f0 (fresh s) f)"

text \<open>Every object from \<open>f\<close> on, those in \<open>E\<close> apart, has no dirty mark.\<close>

definition clean_from :: "ref \<Rightarrow> ref set \<Rightarrow> mstate \<Rightarrow> bool" where
  "clean_from f E s \<longleftrightarrow> (\<forall>i. f \<le> i \<and> i \<notin> E \<longrightarrow> dirty s i = {})"

text \<open>
  A state the mapper can start from: an object that does not exist yet has no dirty mark,
  no accessor and no facet of its own.
\<close>

definition wf_mstate :: "mstate \<Rightarrow> bool" where
  "wf_mstate s \<longleftrightarrow>
     (\<forall>i. fresh s \<le> i \<longrightarrow>
        dirty s i = {} \<and> (\<forall>p. accessors s (i, p) = None)
        \<and> (\<forall>ns c. facets (heap s) (ns, i, c) = None))"

text \<open>
  What a return of \<open>plainToClassExecutor\<close> on the raw array \<open>a\<close> from the state \<open>s\<close>
  establishes: the result is the table's entry for \<open>a\<close> and is logged, and every object
  made since \<open>s\<close> has no dirty mark, the elements of the result apart (their purge is the
  caller's).
\<close>

definition call_post :: "ref \<Rightarrow> mstate \<Rightarrow> ref \<Rightarrow> ref \<times> mstate \<Rightarrow> bool" where
  "call_post f0 s a r = (case r of (ia, s') \<Rightarrow>
     tr_ext {} s s' \<and> tr_inv f0 s' \<and> storage s' a = Some ia \<and> (a, ia) \<in> set (returns s')
     \<and> clean_from (fresh s) (set (arrays (heap s') ia)) s')"

text \<open>A step that writes the dirty marks of one object and nothing else.\<close>

definition marks_only :: "ref \<Rightarrow> mstate \<Rightarrow> mstate \<Rightarrow> bool" where
  "marks_only ins s s' \<longleftrightarrow>
     heap s' = heap s \<and> fresh s' = fresh s \<and> class_of s' = class_of s \<and> props s' = props s
     \<and> accessors s' = accessors s \<and> storage s' = storage s \<and> produced s' = produced s
     \<and> returns s' = returns s \<and> (\<forall>i. i \<noteq> ins \<longrightarrow> dirty s' i = dirty s i)"




text \<open>
  What the transform makes of a raw element. \<open>pruned fs' fs\<close>: the properties \<open>fs'\<close> are
  the properties \<open>fs\<close> without those of some names (the setter of a predicate moves the
  facet properties of an element to its facet instance). \<open>made\<close>: the instance \<open>i\<close> has
  the class \<open>cls\<close> and the properties \<open>plainToClass\<close> gives it from the fields of the raw
  record \<open>e\<close>, pruned; for a scalar the class is \<open>String\<close>.
\<close>

definition pruned :: "fields \<Rightarrow> fields \<Rightarrow> bool" where
  "pruned fs' fs \<longleftrightarrow> (\<exists>D. fs' = filter (\<lambda>p. fst p \<notin> D) fs)"

definition made :: "env \<Rightarrow> (ref \<Rightarrow> fields) \<Rightarrow> mstate \<Rightarrow> string \<Rightarrow> ref \<Rightarrow> elem \<Rightarrow> bool" where
  "made env os s cls i e \<longleftrightarrow>
     (case e of
        ERecord r \<Rightarrow> class_of s i = cls \<and> pruned (props s i) (plainToClass_props env cls (os r))
      | EScalar x \<Rightarrow> class_of s i = ''String'' \<and> pruned (props s i) (plainToClass_props env ''String'' []))"


text \<open>
  From \<open>s\<close> to \<open>s'\<close> an object that exists keeps its class, and its properties are only
  pruned.
\<close>

definition props_ext :: "mstate \<Rightarrow> mstate \<Rightarrow> bool" where
  "props_ext s s' \<longleftrightarrow>
     fresh s \<le> fresh s'
     \<and> (\<forall>i. i < fresh s \<longrightarrow> class_of s' i = class_of s i \<and> pruned (props s' i) (props s i))"

(* EXAMPLES *)

section \<open>Example states\<close>

text \<open>
  An example state: a collection for the property \<open>friends\<close> of owner 1 over the array 10,
  which holds the element 2; the element 3 has a facet 7 from before.
\<close>

definition example_heap :: heap where
  "example_heap =
     \<lparr>arrays = (\<lambda>_. [])(10 := [2]),
      facets = Map.empty((''friends'', 1, 3) \<mapsto> FObject 7),
      weakmaps = (\<lambda>_. Map.empty),
      console = []\<rparr>"

definition example_pstate :: pstate where
  "example_pstate = (new_PredicateImpl ''friends'' 1 10, example_heap)"

definition example_wstate :: wstate where
  "example_wstate = new_PredicateImplW 20 30 31 ''friends'' 1 10 example_heap"

text \<open>
  Example declarations: the enumeration holds \<open>string\<close> and \<open>int\<close>; the reflected types
  \<open>String\<close> and \<open>Number\<close> convert to them and nothing else converts.
\<close>

definition example_reflection :: "string option \<Rightarrow> reflection" where
  "example_reflection d =
     \<lparr>predicateTypes = [''string'', ''int''],
      convertReflectedToPredicateType =
        (\<lambda>n. if n = ''string'' then Some (PredicateTypeValue ''string'')
             else if n = ''number'' then Some (PredicateTypeValue ''int'') else None),
      designType = d\<rparr>"

text \<open>
  An example graph with a cycle. The records 1 (Alice) and 2 (Bob) are complete and
  indexed under their uids; Alice's friends are the array 10, which holds a reference to
  Bob (record 4, only a uid), and Bob's friends are the array 11, which holds a reference
  to Alice (record 3). The roots are record 6, a reference to Alice, and record 5, Carol,
  who has no uid and whose friends are the array 13 with a reference to Bob (record 7).
\<close>

definition example_objs :: "ref \<Rightarrow> fields" where
  "example_objs =
     (\<lambda>_. [])
       (1 := [(''uid'', JScalar ''0x1''), (''dgraph.type'', JArray 12),
              (''name'', JScalar ''Alice''), (''friends'', JArray 10)],
        2 := [(''uid'', JScalar ''0x2''), (''name'', JScalar ''Bob''), (''friends'', JArray 11)],
        3 := [(''uid'', JScalar ''0x1'')],
        4 := [(''uid'', JScalar ''0x2''), (''friends|since'', JScalar ''2019'')],
        5 := [(''name'', JScalar ''Carol''), (''friends'', JArray 13)],
        6 := [(''uid'', JScalar ''0x1''), (''name'', JScalar ''A.'')],
        7 := [(''uid'', JScalar ''0x2'')])"

definition example_els :: "ref \<Rightarrow> elem list" where
  "example_els =
     (\<lambda>_. [])(10 := [ERecord 4], 11 := [ERecord 3], 12 := [EScalar ''Person''],
              13 := [ERecord 7], 20 := [ERecord 6, ERecord 5])"

definition example_resource :: resource where
  "example_resource = Map.empty(JScalar ''0x1'' \<mapsto> 1, JScalar ''0x2'' \<mapsto> 2)"

definition example_estate :: estate where
  "example_estate = \<lparr>visited = {}, descents = [], calls = [], objs = example_objs\<rparr>"





text \<open>
  The records of the example as \<open>expand\<close> leaves them: the references to Alice and Bob
  hold the indexed properties, so that Alice's friends (the array 10) and Bob's friends (the
  array 11) are each held by more than one record, and lead into each other.
\<close>

definition example_expanded :: "ref \<Rightarrow> fields" where
  "example_expanded =
     (\<lambda>_. [])
       (1 := [(''uid'', JScalar ''0x1''), (''dgraph.type'', JArray 12),
              (''name'', JScalar ''Alice''), (''friends'', JArray 10)],
        2 := [(''uid'', JScalar ''0x2''), (''name'', JScalar ''Bob''), (''friends'', JArray 11)],
        3 := [(''uid'', JScalar ''0x1''), (''dgraph.type'', JArray 12),
              (''name'', JScalar ''Alice''), (''friends'', JArray 10)],
        4 := [(''uid'', JScalar ''0x2''), (''friends|since'', JScalar ''2019''),
              (''name'', JScalar ''Bob''), (''friends'', JArray 11)],
        5 := [(''name'', JScalar ''Carol''), (''friends'', JArray 13)],
        6 := [(''uid'', JScalar ''0x1''), (''name'', JScalar ''Alice''),
              (''dgraph.type'', JArray 12), (''friends'', JArray 10)],
        7 := [(''uid'', JScalar ''0x2''), (''name'', JScalar ''Bob''), (''friends'', JArray 11)])"




section \<open>Properties of the predicate collection\<close>

lemma facets_push [simp]: "facets (push a x h) = facets h"
  by (simp add: push_def)

lemma arrays_push [simp]: "arrays (push a x h) a = arrays h a @ [x]"
  by (simp add: push_def)

lemma weakmaps_push [simp]: "weakmaps (push a x h) = weakmaps h"
  by (simp add: push_def)

lemma facets_weakmap_set [simp]: "facets (weakmap_set m k v h) = facets h"
  by (simp add: weakmap_set_def)

lemma arrays_weakmap_set [simp]: "arrays (weakmap_set m k v h) = arrays h"
  by (simp add: weakmap_set_def)

lemma weakmaps_weakmap_set [simp]: "weakmaps (weakmap_set m k v h) m k = Some v"
  by (simp add: weakmap_set_def)

lemma heap_console_log [simp]:
  "arrays (console_log v h) = arrays h"
  "facets (console_log v h) = facets h"
  "weakmaps (console_log v h) = weakmaps h"
  by (simp_all add: console_log_def)

lemma FacetStorage_get_attach [simp]:
  "FacetStorage_get ns ow x (FacetStorage_attach ns ow x f fs) = Some f"
  by (simp add: FacetStorage_get_def FacetStorage_attach_def)

lemma FacetStorage_get_detach [simp]:
  "FacetStorage_get ns ow x (FacetStorage_detach ns ow x fs) = None"
  by (simp add: FacetStorage_get_def FacetStorage_detach_def)

lemma FacetStorage_detach_other:
  "k \<noteq> (ns, ow, x) \<Longrightarrow> FacetStorage_detach ns ow x fs k = fs k"
  by (simp add: FacetStorage_detach_def)

lemma FacetStorage_attach_other:
  "k \<noteq> (ns, ow, x) \<Longrightarrow> FacetStorage_attach ns ow x f fs k = fs k"
  by (simp add: FacetStorage_attach_def)

text \<open>
  C3 (facet lifecycle). The claim as stated, for every non-null facet, fails at a facet
  that is not \<open>null\<close> but falsy: with \<open>0\<close> staged, \<open>add(4)\<close> takes the branch of no
  staged facet, so \<open>getFacet(4)\<close> is absent afterwards and \<open>0\<close> is still staged. Both
  variants of the class.
\<close>

theorem facet_lifecycle_falsy:
  "getFacet 4 (add 4 (withFacet (Some (FNumber 0)) example_pstate)) = None
   \<and> p_facet (fst (add 4 (withFacet (Some (FNumber 0)) example_pstate))) = Some (FNumber 0)
   \<and> get (add 4 (withFacet (Some (FNumber 0)) example_pstate)) = [2, 4]
   \<and> fst (addW 4 (withFacetW (Some (FNumber 0)) example_wstate)) = Inr ()
   \<and> getFacetW 4 (snd (addW 4 (withFacetW (Some (FNumber 0)) example_wstate))) = None
   \<and> w_facet (fst (snd (addW 4 (withFacetW (Some (FNumber 0)) example_wstate)))) = Some (FNumber 0)"
  by (simp add: example_pstate_def example_wstate_def example_heap_def new_PredicateImpl_def
      new_PredicateImplW_def withFacet_def withFacetW_def add_def addW_def get_def getFacet_def
      getFacetW_def push_def weakmap_set_def FacetStorage_get_def)

text \<open>
  C3 (facet lifecycle), amended. For every collection, element \<open>x\<close> and truthy facet \<open>f\<close>
  (every object is one): after \<open>withFacet(f).add(x)\<close>, \<open>getFacet(x)\<close> returns \<open>f\<close> and the
  stage is \<open>null\<close>; a following \<open>update(x)\<close> makes \<open>getFacet(x)\<close> return absent. Both
  variants of the class; in the weak-map variant the collection's entry in
  \<open>diffPredicate\<close> is there, as the constructor leaves it, and \<open>add\<close> returns normally.
\<close>

theorem facet_lifecycle:
  assumes "is_truthy f"
    and "weakmaps (snd w) (w_diffPredicate (fst w)) (w_self (fst w)) \<noteq> None"
  shows "getFacet x (add x (withFacet (Some f) s)) = Some f
       \<and> p_facet (fst (add x (withFacet (Some f) s))) = None
       \<and> getFacet x (update x (add x (withFacet (Some f) s))) = None
       \<and> fst (addW x (withFacetW (Some f) w)) = Inr ()
       \<and> getFacetW x (snd (addW x (withFacetW (Some f) w))) = Some f
       \<and> w_facet (fst (snd (addW x (withFacetW (Some f) w)))) = None
       \<and> getFacetW x (updateW x (snd (addW x (withFacetW (Some f) w)))) = None"
proof -
  obtain p h where s: "s = (p, h)" by (cases s)
  obtain q g where w: "w = (q, g)" by (cases w)
  from assms(2) w obtain d where d: "weakmaps g (w_diffPredicate q) (w_self q) = Some d"
    by auto
  note t = assms(1)
  have "getFacet x (add x (withFacet (Some f) s)) = Some f"
    by (simp add: s t getFacet_def add_def withFacet_def)
  moreover have "p_facet (fst (add x (withFacet (Some f) s))) = None"
    by (simp add: s t add_def withFacet_def)
  moreover have "getFacet x (update x (add x (withFacet (Some f) s))) = None"
    by (simp add: s t getFacet_def update_def add_def withFacet_def)
  moreover have "fst (addW x (withFacetW (Some f) w)) = Inr ()"
    by (simp add: w d t addW_def withFacetW_def)
  moreover have "getFacetW x (snd (addW x (withFacetW (Some f) w))) = Some f"
    by (simp add: w d t getFacetW_def addW_def withFacetW_def)
  moreover have "w_facet (fst (snd (addW x (withFacetW (Some f) w)))) = None"
    by (simp add: w d t addW_def withFacetW_def)
  moreover have "getFacetW x (updateW x (snd (addW x (withFacetW (Some f) w)))) = None"
    by (simp add: w d t getFacetW_def updateW_def addW_def withFacetW_def)
  ultimately show ?thesis by blast
qed

theorem facet_lifecycle_witness:
  "is_truthy (FString ''since 2020'')
   \<and> weakmaps (snd example_wstate) (w_diffPredicate (fst example_wstate)) (w_self (fst example_wstate)) = Some {}
   \<and> getFacet 3 (add 3 (withFacet (Some (FString ''since 2020'')) example_pstate)) = Some (FString ''since 2020'')
   \<and> getFacet 3 (update 3 (add 3 (withFacet (Some (FString ''since 2020'')) example_pstate))) = None
   \<and> fst (addW 3 (withFacetW (Some (FString ''since 2020'')) example_wstate)) = Inr ()
   \<and> getFacetW 3 (snd (addW 3 (withFacetW (Some (FString ''since 2020'')) example_wstate))) = Some (FString ''since 2020'')
   \<and> getFacetW 3 (updateW 3 (snd (addW 3 (withFacetW (Some (FString ''since 2020'')) example_wstate)))) = None"
proof -
  have t: "is_truthy (FString ''since 2020'')" by simp
  have e: "weakmaps (snd example_wstate) (w_diffPredicate (fst example_wstate)) (w_self (fst example_wstate)) = Some {}"
    by (simp add: example_wstate_def new_PredicateImplW_def)
  then have "weakmaps (snd example_wstate) (w_diffPredicate (fst example_wstate)) (w_self (fst example_wstate)) \<noteq> None"
    by simp
  from facet_lifecycle [OF t this, of 3 example_pstate] t e show ?thesis by simp
qed




text \<open>
  C7 (removal is not implemented). For every collection and every argument, \<open>detach\<close> and
  \<open>delete\<close> raise the error \<open>Not implemented\<close>; at the throw the fields of the
  collection, every array, every facet binding and every weak-map entry are as before the
  call (the calls have printed to the console only). Both variants of the class.
\<close>

theorem detach_delete_not_implemented:
  "fst (detach x (p, h)) = Inl NotImplemented
   \<and> fst (snd (detach x (p, h))) = p
   \<and> arrays (snd (snd (detach x (p, h)))) = arrays h
   \<and> facets (snd (snd (detach x (p, h)))) = facets h
   \<and> get (snd (detach x (p, h))) = get (p, h)
   \<and> getDiff (snd (detach x (p, h))) = getDiff (p, h)
   \<and> fst (delete x (p, h)) = Inl NotImplemented
   \<and> fst (snd (delete x (p, h))) = p
   \<and> arrays (snd (snd (delete x (p, h)))) = arrays h
   \<and> facets (snd (snd (delete x (p, h)))) = facets h
   \<and> get (snd (delete x (p, h))) = get (p, h)
   \<and> getDiff (snd (delete x (p, h))) = getDiff (p, h)
   \<and> fst (detachW x (q, g)) = Inl NotImplemented
   \<and> fst (snd (detachW x (q, g))) = q
   \<and> arrays (snd (snd (detachW x (q, g)))) = arrays g
   \<and> facets (snd (snd (detachW x (q, g)))) = facets g
   \<and> weakmaps (snd (snd (detachW x (q, g)))) = weakmaps g
   \<and> fst (deleteW x (q, g)) = Inl NotImplemented
   \<and> fst (snd (deleteW x (q, g))) = q
   \<and> arrays (snd (snd (deleteW x (q, g)))) = arrays g
   \<and> facets (snd (snd (deleteW x (q, g)))) = facets g
   \<and> weakmaps (snd (snd (deleteW x (q, g)))) = weakmaps g"
  by (simp add: detach_def delete_def detachW_def deleteW_def get_def getDiff_def Let_def)

text \<open>
  C10 (a null stage is no stage). The stage is \<open>null\<close> after \<open>withFacet(null)\<close> and after
  an \<open>add\<close> that consumed a staged facet (a truthy one). In both states \<open>add(x)\<close> leaves every facet
  binding as it was, appends \<open>x\<close> to the backing array and records \<open>x\<close> in the added-set,
  and \<open>update(x)\<close> removes the binding of \<open>x\<close>. Both variants of the class; in the
  weak-map variant the collection's entry in \<open>diffPredicate\<close> is there.
\<close>

theorem null_stage_is_no_stage:
  assumes "s0 = withFacet None s \<or> (is_truthy f \<and> s0 = add y (withFacet (Some f) s))"
    and "weakmaps (snd w) (w_diffPredicate (fst w)) (w_self (fst w)) \<noteq> None"
    and "w0 = withFacetW None w \<or> (is_truthy f \<and> w0 = snd (addW y (withFacetW (Some f) w)))"
  shows "p_facet (fst s0) = None
       \<and> facets (snd (add x s0)) = facets (snd s0)
       \<and> get (add x s0) = get s0 @ [x]
       \<and> getDiff (add x s0) = insert x (getDiff s0)
       \<and> getFacet x (update x s0) = None
       \<and> w_facet (fst w0) = None
       \<and> fst (addW x w0) = Inr ()
       \<and> facets (snd (snd (addW x w0))) = facets (snd w0)
       \<and> getW (snd (addW x w0)) = getW w0 @ [x]
       \<and> (\<exists>d. getDiffW w0 = Some d \<and> getDiffW (snd (addW x w0)) = Some (insert x d))
       \<and> getFacetW x (updateW x w0) = None"
proof -
  obtain p h where s: "s = (p, h)" by (cases s)
  obtain p0 h0 where s0: "s0 = (p0, h0)" by (cases s0)
  obtain q g where w: "w = (q, g)" by (cases w)
  obtain q0 g0 where w0: "w0 = (q0, g0)" by (cases w0)
  from assms(2) w obtain d where d: "weakmaps g (w_diffPredicate q) (w_self q) = Some d"
    by auto
  from assms(1) s s0 have n: "p_facet p0 = None"
    by (auto simp: withFacet_def add_def)
  from assms(3) w w0 d have m: "w_facet q0 = None"
    by (auto simp: withFacetW_def addW_def)
  from assms(3) w w0 d obtain d0 where d0: "weakmaps g0 (w_diffPredicate q0) (w_self q0) = Some d0"
    by (auto simp: withFacetW_def addW_def)
  have 1: "facets (snd (add x s0)) = facets (snd s0)"
    by (simp add: s0 n add_def)
  have 2: "get (add x s0) = get s0 @ [x]"
    by (simp add: s0 n add_def get_def)
  have 3: "getDiff (add x s0) = insert x (getDiff s0)"
    by (simp add: s0 n add_def getDiff_def)
  have 4: "getFacet x (update x s0) = None"
    by (simp add: s0 n update_def getFacet_def)
  have 5: "fst (addW x w0) = Inr ()"
    by (simp add: w0 m d0 addW_def)
  have 6: "facets (snd (snd (addW x w0))) = facets (snd w0)"
    by (simp add: w0 m d0 addW_def)
  have 7: "getW (snd (addW x w0)) = getW w0 @ [x]"
    by (simp add: w0 m d0 addW_def getW_def)
  have 8: "getDiffW w0 = Some d0 \<and> getDiffW (snd (addW x w0)) = Some (insert x d0)"
    by (simp add: w0 m d0 addW_def getDiffW_def)
  have 9: "getFacetW x (updateW x w0) = None"
    by (simp add: w0 m updateW_def getFacetW_def)
  from n m 1 2 3 4 5 6 7 8 9 s0 w0 show ?thesis by auto
qed

theorem null_stage_is_no_stage_witness:
  "get (add 4 (add 3 (withFacet (Some (FObject 8)) example_pstate))) = [2, 3, 4]
   \<and> getDiff (add 4 (add 3 (withFacet (Some (FObject 8)) example_pstate))) = {3, 4}
   \<and> facets (snd (add 4 (add 3 (withFacet (Some (FObject 8)) example_pstate)))) =
       facets (snd (add 3 (withFacet (Some (FObject 8)) example_pstate)))
   \<and> getFacet 4 (update 4 (add 3 (withFacet (Some (FObject 8)) example_pstate))) = None
   \<and> fst (addW 4 (snd (addW 3 (withFacetW (Some (FObject 8)) example_wstate)))) = Inr ()
   \<and> getW (snd (addW 4 (snd (addW 3 (withFacetW (Some (FObject 8)) example_wstate))))) = [2, 3, 4]"
proof -
  let ?s0 = "add 3 (withFacet (Some (FObject 8)) example_pstate)"
  let ?w0 = "snd (addW 3 (withFacetW (Some (FObject 8)) example_wstate))"
  have a: "?s0 = withFacet None example_pstate
      \<or> (is_truthy (FObject 8) \<and> ?s0 = add 3 (withFacet (Some (FObject 8)) example_pstate))"
    by simp
  have b: "weakmaps (snd example_wstate) (w_diffPredicate (fst example_wstate)) (w_self (fst example_wstate)) \<noteq> None"
    by (simp add: example_wstate_def new_PredicateImplW_def)
  have c: "?w0 = withFacetW None example_wstate
      \<or> (is_truthy (FObject 8) \<and> ?w0 = snd (addW 3 (withFacetW (Some (FObject 8)) example_wstate)))"
    by simp
  have g0: "get ?s0 = [2, 3]"
    by (simp add: example_pstate_def example_heap_def new_PredicateImpl_def withFacet_def add_def get_def push_def)
  have d0: "getDiff ?s0 = {3}"
    by (simp add: example_pstate_def example_heap_def new_PredicateImpl_def withFacet_def add_def getDiff_def)
  have w0: "getW ?w0 = [2, 3]"
    by (simp add: example_wstate_def example_heap_def new_PredicateImplW_def withFacetW_def addW_def
        getW_def push_def weakmap_set_def)
  show ?thesis
    using null_stage_is_no_stage [OF a b c, of 4] g0 d0 w0 by (simp add: insert_commute)
qed

section \<open>Properties of the predicate decorator\<close>

lemma fallback_isl:
  "isl (fallback env n a ty) \<longleftrightarrow>
     \<not> (case ty of Some t \<Rightarrow> truthy t | None \<Rightarrow> False) \<and> designType env = None"
  by (simp add: fallback_def getPropertyPredicateType_def split: option.split)

lemma fallback_type:
  "fallback env n a ty = Inr r \<Longrightarrow>
     type_of r = (if (case ty of Some t \<Rightarrow> truthy t | None \<Rightarrow> False) then ty
                  else convertReflectedToPredicateType env (toLowerCase (the (designType env))))"
  by (auto simp: fallback_def getPropertyPredicateType_def split: option.splits if_splits)

text \<open>
  C8 (configuration faults of a predicate declaration). The decorator raises exactly when
  the type is given as an array that does not hold exactly one element, or the type is
  neither given in the options nor inferable from the reflected type; otherwise it
  returns the metadata it registers.
\<close>

theorem Predicate_raises_iff:
  "isl (Predicate env options target propertyName) \<longleftrightarrow>
     malformed_array options \<or> (\<not> type_given options \<and> \<not> type_inferable env)"
proof (cases "opt_type options")
  case NoType
  then show ?thesis
    by (auto simp: Predicate_def sanitizePredicateType_def fallback_def getPropertyPredicateType_def
        malformed_array_def type_given_def type_inferable_def split: option.splits)
next
  case (OneType t)
  then show ?thesis
    by (auto simp: Predicate_def sanitizePredicateType_def fallback_def getPropertyPredicateType_def
        malformed_array_def type_given_def type_inferable_def split: option.splits)
next
  case (ArrayType ts)
  show ?thesis
  proof (cases ts)
    case Nil
    with ArrayType show ?thesis
      by (simp add: Predicate_def sanitizePredicateType_def malformed_array_def)
  next
    case (Cons t us)
    show ?thesis
    proof (cases us)
      case Nil
      with Cons ArrayType show ?thesis
        by (auto simp: Predicate_def sanitizePredicateType_def fallback_def getPropertyPredicateType_def
            malformed_array_def type_given_def type_inferable_def split: option.splits)
    next
      case (Cons u vs)
      with \<open>ts = t # us\<close> ArrayType show ?thesis
        by (simp add: Predicate_def sanitizePredicateType_def malformed_array_def)
    qed
  qed
qed

text \<open>
  The declaration \<open>works\<close> of the schema test gives a function as its type and is
  registered as a node predicate named \<open>Person.works\<close>; an empty array and a pair are
  refused; with no type and no reflected type the declaration raises.
\<close>

theorem Predicate_raises_iff_witness:
  "Predicate (example_reflection None) \<lparr>opt_type = OneType (Constructor ''Work''), opt_name = None\<rparr>
       ''Person'' ''works''
     = Inr \<lparr>md_type = ''node'', md_name = ''Person.works'', md_isArray = False,
            md_target = ''Person'', md_propertyName = ''works''\<rparr>
   \<and> isl (Predicate (example_reflection (Some ''String'')) \<lparr>opt_type = ArrayType [], opt_name = None\<rparr>
       ''Person'' ''works'')
   \<and> isl (Predicate (example_reflection None) \<lparr>opt_type = NoType, opt_name = None\<rparr> ''Person'' ''works'')
   \<and> \<not> isl (Predicate (example_reflection (Some ''String'')) \<lparr>opt_type = NoType, opt_name = None\<rparr>
       ''Person'' ''name'')"
proof -
  have 1: "malformed_array \<lparr>opt_type = ArrayType [], opt_name = None\<rparr>"
    by (simp add: malformed_array_def)
  have 2: "\<not> type_given \<lparr>opt_type = NoType, opt_name = None\<rparr>"
    "\<not> malformed_array \<lparr>opt_type = NoType, opt_name = None\<rparr>"
    by (simp_all add: type_given_def malformed_array_def)
  have 3: "\<not> type_inferable (example_reflection None)"
    by (simp add: type_inferable_def example_reflection_def)
  have 4: "type_inferable (example_reflection (Some ''String''))"
    by code_simp
  have 5: "Predicate (example_reflection None) \<lparr>opt_type = OneType (Constructor ''Work''), opt_name = None\<rparr>
       ''Person'' ''works''
     = Inr \<lparr>md_type = ''node'', md_name = ''Person.works'', md_isArray = False,
            md_target = ''Person'', md_propertyName = ''works''\<rparr>"
    by (simp add: Predicate_def sanitizePredicateType_def fallback_def)
  from 1 2 3 4 5
    Predicate_raises_iff [of "example_reflection (Some ''String'')" "\<lparr>opt_type = ArrayType [], opt_name = None\<rparr>" "''Person''" "''works''"]
    Predicate_raises_iff [of "example_reflection None" "\<lparr>opt_type = NoType, opt_name = None\<rparr>" "''Person''" "''works''"]
    Predicate_raises_iff [of "example_reflection (Some ''String'')" "\<lparr>opt_type = NoType, opt_name = None\<rparr>" "''Person''" "''name''"]
  show ?thesis by simp
qed

section \<open>Properties of expand\<close>

lemma forEach_total:
  assumes "I s" and "\<And>x s. x \<in> set xs \<Longrightarrow> I s \<Longrightarrow> \<exists>s'. f x s = Some s' \<and> I s'"
  shows "\<exists>s'. forEach f xs s = Some s' \<and> I s'"
  using assms
proof (induction xs arbitrary: s)
  case Nil
  then show ?case by simp
next
  case (Cons x xs)
  from Cons.prems obtain s1 where s1: "f x s = Some s1" "I s1" by (meson list.set_intros(1))
  from Cons.IH [OF s1(2)] Cons.prems(2) obtain s' where "forEach f xs s1 = Some s'" "I s'"
    by (meson list.set_intros(2))
  with s1 show ?case by simp
qed

lemma set_set_field: "set (set_field k v fs) \<subseteq> insert (k, v) (set fs)"
  by (induction fs) (auto split: if_splits)

lemma set_Object_assign: "set (Object_assign t s) \<subseteq> set t \<union> set s"
proof (induction s arbitrary: t)
  case Nil
  then show ?case by (simp add: Object_assign_def)
next
  case (Cons p s)
  obtain k v where p: "p = (k, v)" by (cases p)
  have "Object_assign t (p # s) = Object_assign (set_field k v t) s"
    by (simp add: Object_assign_def p)
  moreover have "set (Object_assign (set_field k v t) s) \<subseteq> set (set_field k v t) \<union> set s"
    by (rule Cons.IH)
  ultimately show ?case using set_set_field [of k v t] p by auto
qed

lemma set_merge: "set (merge resource source os r) \<subseteq> (\<Union>r. set (os r))"
proof (cases "resource_get resource (field (os source) ''uid'')")
  case None
  then show ?thesis by (auto simp: merge_def)
next
  case (Some r0)
  then show ?thesis
    using set_Object_assign [of "os source" "os r0"] by (auto simp: merge_def)
qed

lemma all_values_merge: "all_values (merge resource source os) \<subseteq> all_values os"
  using set_merge [of resource source os] by (fastforce simp: all_values_def)

lemma all_names_merge: "all_names (merge resource source os) \<subseteq> all_names os"
  using set_merge [of resource source os] by (fastforce simp: all_names_def)

lemma finite_all_values: "finite_graph os \<Longrightarrow> finite (all_values os)"
proof -
  assume f: "finite_graph os"
  have "all_values os = (\<Union>r\<in>{r. os r \<noteq> []}. snd ` set (os r))"
    by (force simp: all_values_def)
  with f show ?thesis by (simp add: finite_graph_def)
qed

lemma finite_all_names: "finite_graph os \<Longrightarrow> finite (all_names os)"
proof -
  assume f: "finite_graph os"
  have "all_names os = (\<Union>r\<in>{r. os r \<noteq> []}. fst ` set (os r))"
    by (force simp: all_names_def)
  with f show ?thesis by (simp add: finite_graph_def)
qed

lemma finite_edge_keys: "finite_graph os \<Longrightarrow> finite (edge_keys els os)"
  by (simp add: edge_keys_def finite_all_values finite_all_names)

lemma edge_keys_mono:
  "all_values os' \<subseteq> all_values os \<Longrightarrow> all_names os' \<subseteq> all_names os \<Longrightarrow>
   edge_keys els os' \<subseteq> edge_keys els os"
  unfolding edge_keys_def by (intro image_mono Sigma_mono) auto

lemma field_in_all_values: "field (os r) k = Some v \<Longrightarrow> v \<in> all_values os"
  unfolding field_def all_values_def by (force dest: map_of_SomeD)

lemma uid_of_in_all_values: "uid_of os e = Some v \<Longrightarrow> v \<in> all_values os"
  by (auto simp: uid_of_def field_in_all_values split: elem.splits)

lemma key_in_all_names: "k \<in> set (Object_keys (os r)) \<Longrightarrow> k \<in> all_names os"
  unfolding Object_keys_def all_names_def by auto

lemma edge_in_edge_keys:
  assumes "k \<in> all_names os"
  shows "visitingKey (template els (field (os r) ''uid''), k, template els (uid_of os e)) \<in> edge_keys els os"
proof -
  have a: "field (os r) ''uid'' \<in> insert None (Some ` all_values os)"
    by (cases "field (os r) ''uid''") (auto dest: field_in_all_values)
  have b: "uid_of os e \<in> insert None (Some ` all_values os)"
    by (cases "uid_of os e") (auto dest: uid_of_in_all_values)
  from a b assms show ?thesis
    unfolding edge_keys_def by (intro image_eqI [where x = "(field (os r) ''uid'', k, uid_of os e)"]) auto
qed


lemma expand_inv_visited_mono:
  "expand_inv els os0 X0 s \<Longrightarrow> expand_inv els os0 X0 s' \<Longrightarrow> descents s' = descents s @ ds \<Longrightarrow>
   visited s \<subseteq> visited s'"
  by (auto simp: expand_inv_def)

lemma expand_inv_merge:
  "expand_inv els os0 X0 st \<Longrightarrow>
   expand_inv els os0 X0 (st\<lparr>objs := merge resource source (objs st), calls := cs\<rparr>)"
  using all_values_merge [of resource source "objs st"] all_names_merge [of resource source "objs st"]
  by (auto simp: expand_inv_def)

lemma expand_inv_edge:
  assumes "expand_inv els os0 X0 s" and "k \<in> all_names os0"
  shows "visitingKey (template els (field (objs s r) ''uid''), k, template els (uid_of (objs s) e))
         \<in> edge_keys els os0"
proof -
  have a: "field (objs s r) ''uid'' \<in> insert None (Some ` all_values os0)"
    using assms(1) by (cases "field (objs s r) ''uid''") (auto simp: expand_inv_def dest: field_in_all_values)
  have b: "uid_of (objs s) e \<in> insert None (Some ` all_values os0)"
    using assms(1) by (cases "uid_of (objs s) e") (auto simp: expand_inv_def dest: uid_of_in_all_values)
  from a b assms(2) show ?thesis
    unfolding edge_keys_def
    by (intro image_eqI [where x = "(field (objs s r) ''uid'', k, uid_of (objs s) e)"]) auto
qed

lemma expand_inv_step:
  assumes inv: "expand_inv els os0 X0 s" and e: "visitingKey e \<in> edge_keys els os0"
    and new: "visitingKey e \<notin> visited s"
  shows "expand_inv els os0 X0 (s\<lparr>visited := insert (visitingKey e) (visited s), descents := descents s @ [e]\<rparr>)"
  using assms by (auto simp: expand_inv_def)

lemma card_step:
  assumes "finite K" "k \<in> K" "k \<notin> A" "A0 \<subseteq> A" "card (K - A0) < Suc n"
  shows "card (K - insert k A) < n"
proof -
  have "K - insert k A \<subset> K - A" using assms(2,3) by auto
  then have "card (K - insert k A) < card (K - A)"
    using assms(1) by (intro psubset_card_mono) auto
  moreover have "card (K - A) \<le> card (K - A0)"
    using assms(1,4) by (intro card_mono) auto
  ultimately show ?thesis using assms(5) by simp
qed

lemma expand_total_aux:
  assumes fin: "finite (edge_keys els os0)"
  shows "expand_inv els os0 X0 st \<Longrightarrow> card (edge_keys els os0 - visited st) < n \<Longrightarrow>
     \<exists>st'. expand n els resource source st = Some st' \<and> expand_inv els os0 X0 st'
          \<and> (\<exists>ds. descents st' = descents st @ ds)"
proof (induction n arbitrary: st source)
  case 0
  then show ?case by simp
next
  case (Suc n)
  show ?case
  proof (cases source)
    case (EScalar x)
    with Suc.prems show ?thesis by simp
  next
    case (ERecord r)
    let ?K = "edge_keys els os0"
    let ?st1 = "st\<lparr>objs := merge resource r (objs st), calls := calls st @ [r]\<rparr>"
    let ?I = "\<lambda>s. expand_inv els os0 X0 s \<and> (\<exists>ds. descents s = descents st @ ds)"
    have inv1: "?I ?st1" using Suc.prems(1) by (simp add: expand_inv_merge)
    have node: "\<exists>s'. visit_node (expand n els resource) els r k e s = Some s' \<and> ?I s'"
      if k: "k \<in> all_names os0" and I: "?I s" for k e s
    proof -
      let ?e = "(template els (field (objs s r) ''uid''), k, template els (uid_of (objs s) e))"
      have inK: "visitingKey ?e \<in> ?K" using I k by (blast intro: expand_inv_edge)
      show ?thesis
      proof (cases "visitingKey ?e \<in> visited s")
        case True
        with I show ?thesis by (simp add: visit_node_def)
      next
        case False
        let ?s2 = "s\<lparr>visited := insert (visitingKey ?e) (visited s), descents := descents s @ [?e]\<rparr>"
        have inv2: "expand_inv els os0 X0 ?s2" using I inK False by (simp add: expand_inv_step)
        from I obtain ds where ds: "descents s = descents st @ ds" by blast
        have "visited st \<subseteq> visited s"
          using Suc.prems(1) I ds by (auto simp: expand_inv_def)
        then have "card (?K - insert (visitingKey ?e) (visited s)) < n"
          using fin inK False Suc.prems(2) by (rule_tac card_step) auto
        then have "card (?K - visited ?s2) < n" by simp
        from Suc.IH [OF inv2 this, of e] obtain s' ds' where
          s': "expand n els resource e ?s2 = Some s'" "expand_inv els os0 X0 s'"
              "descents s' = descents ?s2 @ ds'" by blast
        with ds have "descents s' = descents st @ (ds @ [?e] @ ds')" by simp
        with s' False show ?thesis by (auto simp: visit_node_def Let_def)
      qed
    qed
    have key: "\<exists>s'. visit_key (expand n els resource) els r k s = Some s' \<and> ?I s'"
      if k: "k \<in> all_names os0" and I: "?I s" for k s
    proof -
      have "\<exists>s'. forEach (visit_node (expand n els resource) els r k) xs s = Some s' \<and> ?I s'" for xs
        using I node [OF k] by (intro forEach_total [where I = ?I]) auto
      with I show ?thesis
        by (auto simp: visit_key_def split: option.split jval.split)
    qed
    have keys: "set (Object_keys (objs ?st1 r)) \<subseteq> all_names os0"
      using inv1 by (auto simp: expand_inv_def dest: key_in_all_names)
    have "\<exists>s'. forEach (visit_key (expand n els resource) els r) (Object_keys (objs ?st1 r)) ?st1 = Some s' \<and> ?I s'"
      using inv1 key keys by (intro forEach_total [where I = ?I]) auto
    with ERecord show ?thesis by (simp add: expand_record_def Let_def)
  qed
qed

text \<open>
  C5 (termination of expand). On every finite graph, cyclic or not, \<open>expand\<close> returns once
  the fuel exceeds the number of edge keys of the graph that are not visited yet. No edge
  is descended into twice, none that was visited before, the keys of the descents are
  exactly what the call adds to the visited set, and the descents are at most as many as
  those edge keys.
\<close>

theorem expand_terminates:
  assumes "finite_graph (objs st)" and "descents st = []"
  shows "\<exists>N. \<forall>n. N < n \<longrightarrow>
           (\<exists>st'. expand n els resource source st = Some st'
              \<and> distinct (descents st')
              \<and> distinct (map visitingKey (descents st'))
              \<and> visited st' = visited st \<union> visitingKey ` set (descents st')
              \<and> visited st \<inter> visitingKey ` set (descents st') = {}
              \<and> length (descents st') \<le> card (edge_keys els (objs st) - visited st))"
proof -
  let ?K = "edge_keys els (objs st)"
  { fix n
  assume n: "card (?K - visited st) < n"
  have fin: "finite ?K" using assms(1) by (rule finite_edge_keys)
  have inv: "expand_inv els (objs st) (visited st) st"
    unfolding expand_inv_def using assms(2) by simp
  from expand_total_aux [OF fin inv n] obtain st' where
    st': "expand n els resource source st = Some st'" "expand_inv els (objs st) (visited st) st'"
    by blast
  from st'(2) have d: "distinct (map visitingKey (descents st'))"
    and v: "visited st' = visited st \<union> visitingKey ` set (descents st')"
    and x: "visited st \<inter> visitingKey ` set (descents st') = {}"
    and k: "visitingKey ` set (descents st') \<subseteq> ?K"
    unfolding expand_inv_def by blast+
  from d have dd: "distinct (descents st')" by (simp add: distinct_map)
  from d have "card (visitingKey ` set (descents st')) = length (descents st')"
    using distinct_card [of "map visitingKey (descents st')"] by simp
  moreover have "visitingKey ` set (descents st') \<subseteq> ?K - visited st"
    using x k by blast
  then have "card (visitingKey ` set (descents st')) \<le> card (?K - visited st)"
    using fin by (intro card_mono) simp_all
  ultimately have l: "length (descents st') \<le> card (?K - visited st)" by simp
  have "\<exists>st'. expand n els resource source st = Some st'
              \<and> distinct (descents st')
              \<and> distinct (map visitingKey (descents st'))
              \<and> visited st' = visited st \<union> visitingKey ` set (descents st')
              \<and> visited st \<inter> visitingKey ` set (descents st') = {}
              \<and> length (descents st') \<le> card (?K - visited st)"
    using st'(1) dd d v x l by (intro exI [of _ st'] conjI)
  }
  then have "\<forall>n. card (?K - visited st) < n \<longrightarrow>
           (\<exists>st'. expand n els resource source st = Some st'
              \<and> distinct (descents st')
              \<and> distinct (map visitingKey (descents st'))
              \<and> visited st' = visited st \<union> visitingKey ` set (descents st')
              \<and> visited st \<inter> visitingKey ` set (descents st') = {}
              \<and> length (descents st') \<le> card (?K - visited st))"
    by (intro allI impI)
  then show ?thesis by (intro exI [of _ "card (?K - visited st)"])
qed

lemma example_finite_graph: "finite_graph example_objs"
  unfolding finite_graph_def
  by (rule finite_subset [where B = "{1, 2, 3, 4, 5, 6, 7}"])
     (auto simp: example_objs_def split: if_splits)

text \<open>
  On the example, the call on the root 6 descends along Alice's edge to Bob and along
  Bob's edge back to Alice, and stops there: the edge from Alice to Bob is visited.
\<close>

theorem expand_terminates_witness:
  "finite_graph (objs example_estate) \<and> descents example_estate = []
   \<and> (\<exists>N. \<forall>n. N < n \<longrightarrow>
          (\<exists>st'. expand n example_els example_resource (ERecord 6) example_estate = Some st'
              \<and> distinct (descents st')
              \<and> distinct (map visitingKey (descents st'))
              \<and> visited st' = visited example_estate \<union> visitingKey ` set (descents st')
              \<and> visited example_estate \<inter> visitingKey ` set (descents st') = {}
              \<and> length (descents st')
                   \<le> card (edge_keys example_els (objs example_estate) - visited example_estate)))
   \<and> map_option descents (expand 3 example_els example_resource (ERecord 6) example_estate)
       = Some [(''0x1'', ''friends'', ''0x2''), (''0x2'', ''friends'', ''0x1'')]"
proof -
  have f: "finite_graph (objs example_estate)"
    by (simp add: example_estate_def example_finite_graph)
  have d: "descents example_estate = []"
    by (simp add: example_estate_def)
  have r: "map_option descents (expand 3 example_els example_resource (ERecord 6) example_estate)
       = Some [(''0x1'', ''friends'', ''0x2''), (''0x2'', ''friends'', ''0x1'')]"
    by code_simp
  from f d expand_terminates [OF f d, of example_els example_resource "ERecord 6"] r
  show ?thesis by (intro conjI)
qed

subsection \<open>The merge\<close>





















subsection \<open>The edges of the records called\<close>




















section \<open>Properties of the transform\<close>

subsection \<open>What each operation writes\<close>

lemma new_instance_frame:
  "fst (new_instance env cls plain st) = fresh st"
  "fresh (snd (new_instance env cls plain st)) = Suc (fresh st)"
  "heap (snd (new_instance env cls plain st)) = heap st"
  "dirty (snd (new_instance env cls plain st)) = dirty st"
  "accessors (snd (new_instance env cls plain st)) = accessors st"
  "storage (snd (new_instance env cls plain st)) = storage st"
  "produced (snd (new_instance env cls plain st)) = produced st"
  "returns (snd (new_instance env cls plain st)) = returns st"
  by (simp_all add: new_instance_def)

lemma upt_Cons_shift: "i # [Suc i ..< Suc i + n] = [i ..< i + Suc n]"
proof -
  have "[i ..< Suc (i + n)] = i # [Suc i ..< Suc (i + n)]"
    by (rule upt_conv_Cons) simp
  then show ?thesis by (simp only: add_Suc add_Suc_right)
qed

lemma plainToClass_elems_frame:
  "fst (plainToClass_elems env cls os es st) = [fresh st ..< fresh st + length es]
   \<and> fresh (snd (plainToClass_elems env cls os es st)) = fresh st + length es
   \<and> heap (snd (plainToClass_elems env cls os es st)) = heap st
   \<and> dirty (snd (plainToClass_elems env cls os es st)) = dirty st
   \<and> accessors (snd (plainToClass_elems env cls os es st)) = accessors st
   \<and> storage (snd (plainToClass_elems env cls os es st)) = storage st
   \<and> produced (snd (plainToClass_elems env cls os es st)) = produced st
   \<and> returns (snd (plainToClass_elems env cls os es st)) = returns st"
proof (induction es arbitrary: st)
  case Nil
  then show ?case by simp
next
  case (Cons e es)
  let ?n = "case e of ERecord r \<Rightarrow> new_instance env cls (os r) st
                    | EScalar s \<Rightarrow> new_instance env ''String'' [] st"
  obtain i st1 where n: "?n = (i, st1)" by (cases ?n)
  have f: "i = fresh st" "fresh st1 = Suc (fresh st)" "heap st1 = heap st" "dirty st1 = dirty st"
    "accessors st1 = accessors st" "storage st1 = storage st" "produced st1 = produced st"
    "returns st1 = returns st"
    using n new_instance_frame [of env cls _ st] new_instance_frame [of env "''String''" "[]" st]
    by (cases e; simp; metis fst_conv snd_conv)+
  obtain js st2 where r: "plainToClass_elems env cls os es st1 = (js, st2)"
    by (cases "plainToClass_elems env cls os es st1")
  from Cons.IH [of st1] r f have
    "js = [Suc (fresh st) ..< Suc (fresh st) + length es]"
    "fresh st2 = Suc (fresh st) + length es" "heap st2 = heap st" "dirty st2 = dirty st"
    "accessors st2 = accessors st" "storage st2 = storage st" "produced st2 = produced st"
    "returns st2 = returns st"
    by simp_all
  moreover have "plainToClass_elems env cls os (e # es) st = (i # js, st2)"
    using n r by simp
  ultimately show ?case using f(1) upt_Cons_shift [of "fresh st" "length es"]
    by (simp del: upt_Suc)
qed

lemma plainToClass_array_frame:
  assumes "plainToClass_array env cls os es st = (ia, st1)"
  shows "ia = fresh st + length es" "fresh st1 = Suc (fresh st + length es)"
    "arrays (heap st1) = (arrays (heap st))(ia := [fresh st ..< fresh st + length es])"
    "facets (heap st1) = facets (heap st)"
    "dirty st1 = dirty st" "accessors st1 = accessors st" "storage st1 = storage st"
    "produced st1 = produced st" "returns st1 = returns st"
proof -
  obtain js st0 where e: "plainToClass_elems env cls os es st = (js, st0)"
    by (cases "plainToClass_elems env cls os es st")
  from plainToClass_elems_frame [of env cls os es st] e have f:
    "js = [fresh st ..< fresh st + length es]" "fresh st0 = fresh st + length es"
    "heap st0 = heap st" "dirty st0 = dirty st" "accessors st0 = accessors st"
    "storage st0 = storage st" "produced st0 = produced st" "returns st0 = returns st"
    by simp_all
  have r: "ia = fresh st0"
    "st1 = st0\<lparr>fresh := Suc (fresh st0),
              heap := (heap st0)\<lparr>arrays := (arrays (heap st0))(fresh st0 := js)\<rparr>\<rparr>"
    using assms e by (auto simp: plainToClass_array_def)
  show "ia = fresh st + length es" "fresh st1 = Suc (fresh st + length es)"
    "arrays (heap st1) = (arrays (heap st))(ia := [fresh st ..< fresh st + length es])"
    "facets (heap st1) = facets (heap st)"
    "dirty st1 = dirty st" "accessors st1 = accessors st" "storage st1 = storage st"
    "produced st1 = produced st" "returns st1 = returns st"
    using r f by simp_all
qed

lemma marks_only_refl: "marks_only ins s s"
  by (simp add: marks_only_def)

lemma marks_only_trans: "marks_only ins a b \<Longrightarrow> marks_only ins b c \<Longrightarrow> marks_only ins a c"
  by (simp add: marks_only_def)

lemma marks_only_trackProperty: "marks_only ins s (trackProperty env ins p n s)"
  by (simp add: marks_only_def trackProperty_def)

lemma marks_only_fold:
  "(\<And>x s. marks_only ins s (f x s)) \<Longrightarrow> marks_only ins s (fold f xs s)"
proof (induction xs arbitrary: s)
  case Nil
  then show ?case by (simp add: marks_only_refl)
next
  case (Cons x xs)
  have "marks_only ins s (f x s)" by (rule Cons.prems)
  moreover have "marks_only ins (f x s) (fold f xs (f x s))" using Cons.prems by (rule Cons.IH)
  ultimately show ?case using marks_only_trans by fastforce
qed

lemma marks_only_trackProperties: "marks_only ins s (trackProperties env ins s)"
proof (cases "md_properties (metadata env) (class_of s ins)")
  case None
  then show ?thesis by (simp add: trackProperties_def marks_only_refl)
next
  case (Some ps)
  have "marks_only ins s
          (fold (\<lambda>prop. trackProperty env ins (prop_propertyName prop) (Some (prop_name prop))) ps s)"
    by (rule marks_only_fold) (rule marks_only_trackProperty)
  with Some show ?thesis by (simp add: trackProperties_def)
qed

lemma facet_within_FObject [simp]: "facet_within lo hi (FObject f) \<longleftrightarrow> lo \<le> f \<and> f < hi"
  by (simp add: facet_within_def)

lemma facet_within_mono:
  "facet_within lo hi v \<Longrightarrow> lo' \<le> lo \<Longrightarrow> hi \<le> hi' \<Longrightarrow> facet_within lo' hi' v"
  by (cases v) (simp_all add: facet_within_def)

lemma setter_elem_frame:
  "fresh (setter_elem env ins md fs v s) = Suc (fresh s)"
  "arrays (heap (setter_elem env ins md fs v s)) = arrays (heap s)"
  "facets (heap (setter_elem env ins md fs v s)) =
     (facets (heap s))((pred_propertyName md, ins, v) \<mapsto> FObject (fresh s))"
  "accessors (setter_elem env ins md fs v s) = accessors s"
  "storage (setter_elem env ins md fs v s) = storage s"
  "produced (setter_elem env ins md fs v s) = produced s"
  "returns (setter_elem env ins md fs v s) = returns s"
  "dirty (setter_elem env ins md fs v s) = (dirty s)(fresh s := {}, v := {})"
proof -
  obtain plain v' where m: "fold (move_facet_field (pred_name md)) fs ([], props s v) = (plain, v')"
    by (cases "fold (move_facet_field (pred_name md)) fs ([], props s v)")
  let ?s1 = "s\<lparr>props := (props s)(v := v')\<rparr>"
  let ?cls = "case pred_facet md of Some c \<Rightarrow> c | None \<Rightarrow> ''Object''"
  obtain fi s2 where n: "new_instance env ?cls plain ?s1 = (fi, s2)"
    by (cases "new_instance env ?cls plain ?s1")
  from new_instance_frame [of env ?cls plain ?s1] n have f2:
    "fi = fresh s" "fresh s2 = Suc (fresh s)" "heap s2 = heap s" "dirty s2 = dirty s"
    "accessors s2 = accessors s" "storage s2 = storage s" "produced s2 = produced s"
    "returns s2 = returns s"
    by simp_all
  let ?s3 = "s2\<lparr>heap := (heap s2)\<lparr>facets :=
                FacetStorage_attach (pred_propertyName md) ins v (FObject fi) (facets (heap s2))\<rparr>\<rparr>"
  let ?s4 = "fold (\<lambda>f. trackProperty env fi (facet_propertyName f) None) fs ?s3"
  have m4: "marks_only fi ?s3 ?s4"
    by (rule marks_only_fold) (rule marks_only_trackProperty)
  have r: "setter_elem env ins md fs v s = purgeInstance v (purgeInstance fi ?s4)"
    using m n by (simp add: setter_elem_def Let_def)
  have d: "dirty (purgeInstance v (purgeInstance fi ?s4)) = (dirty s)(fresh s := {}, v := {})"
  proof
    fix i
    show "dirty (purgeInstance v (purgeInstance fi ?s4)) i = ((dirty s)(fresh s := {}, v := {})) i"
      using m4 f2 by (cases "i = fi") (simp_all add: purgeInstance_def marks_only_def)
  qed
  show "fresh (setter_elem env ins md fs v s) = Suc (fresh s)"
    "arrays (heap (setter_elem env ins md fs v s)) = arrays (heap s)"
    "facets (heap (setter_elem env ins md fs v s)) =
       (facets (heap s))((pred_propertyName md, ins, v) \<mapsto> FObject (fresh s))"
    "accessors (setter_elem env ins md fs v s) = accessors s"
    "storage (setter_elem env ins md fs v s) = storage s"
    "produced (setter_elem env ins md fs v s) = produced s"
    "returns (setter_elem env ins md fs v s) = returns s"
    "dirty (setter_elem env ins md fs v s) = (dirty s)(fresh s := {}, v := {})"
    using m4 f2 d unfolding r
    by (simp_all add: purgeInstance_def marks_only_def FacetStorage_attach_def)
qed

lemma setter_loop_frame:
  "fresh (fold (setter_elem env ins md fs) vs s) = fresh s + length vs
   \<and> arrays (heap (fold (setter_elem env ins md fs) vs s)) = arrays (heap s)
   \<and> accessors (fold (setter_elem env ins md fs) vs s) = accessors s
   \<and> storage (fold (setter_elem env ins md fs) vs s) = storage s
   \<and> produced (fold (setter_elem env ins md fs) vs s) = produced s
   \<and> returns (fold (setter_elem env ins md fs) vs s) = returns s
   \<and> (\<forall>i. dirty (fold (setter_elem env ins md fs) vs s) i =
          (if i \<in> set vs \<or> (fresh s \<le> i \<and> i < fresh s + length vs) then {} else dirty s i))
   \<and> (\<forall>key f. facets (heap (fold (setter_elem env ins md fs) vs s)) key = Some f \<longrightarrow>
          facets (heap s) key = Some f \<or> facet_within (fresh s) (fresh s + length vs) f)"
proof (induction vs arbitrary: s)
  case Nil
  then show ?case by auto
next
  case (Cons v vs)
  let ?s1 = "setter_elem env ins md fs v s"
  let ?s' = "fold (setter_elem env ins md fs) vs ?s1"
  note f1 = setter_elem_frame [of env ins md fs v s]
  note IH = Cons.IH [of ?s1]
  have e: "fold (setter_elem env ins md fs) (v # vs) s = ?s'" by simp
  have 1: "fresh ?s' = fresh s + length (v # vs)" using IH f1(1) by simp
  have 2: "arrays (heap ?s') = arrays (heap s)" using IH f1(2) by simp
  have 3: "accessors ?s' = accessors s" "storage ?s' = storage s" "produced ?s' = produced s"
    "returns ?s' = returns s"
    using IH f1(4,5,6,7) by simp_all
  have 4: "\<forall>i. dirty ?s' i =
          (if i \<in> set (v # vs) \<or> (fresh s \<le> i \<and> i < fresh s + length (v # vs)) then {} else dirty s i)"
  proof
    fix i
    from IH have "dirty ?s' i =
       (if i \<in> set vs \<or> (fresh ?s1 \<le> i \<and> i < fresh ?s1 + length vs) then {} else dirty ?s1 i)"
      by blast
    then show "dirty ?s' i =
          (if i \<in> set (v # vs) \<or> (fresh s \<le> i \<and> i < fresh s + length (v # vs)) then {} else dirty s i)"
      unfolding f1(1) f1(8) by (cases "i = v"; cases "i = fresh s") auto
  qed
  have 5: "\<forall>key f. facets (heap ?s') key = Some f \<longrightarrow>
          facets (heap s) key = Some f \<or> facet_within (fresh s) (fresh s + length (v # vs)) f"
  proof (intro allI impI)
    fix key f assume "facets (heap ?s') key = Some f"
    with IH have "facets (heap ?s1) key = Some f \<or> facet_within (fresh ?s1) (fresh ?s1 + length vs) f"
      by blast
    then show "facets (heap s) key = Some f \<or> facet_within (fresh s) (fresh s + length (v # vs)) f"
      unfolding f1(1) f1(3) by (auto split: if_splits intro: facet_within_mono)
  qed
  show ?case unfolding e using 1 2 3 4 5 by (intro conjI)
qed

lemma setter_frame:
  assumes "s' = setter env ins md value s" and "vs = arrays (heap s) value"
  shows "fresh s' = fresh s + length vs" "arrays (heap s') = arrays (heap s)"
    "storage s' = storage s" "produced s' = produced s" "returns s' = returns s"
    "accessors s' = (accessors s)((ins, pred_propertyName md) :=
        Some (Some (new_PredicateImpl (pred_propertyName md) ins value)))"
    "\<forall>i. dirty s' i = (if i \<in> set vs \<or> (fresh s \<le> i \<and> i < fresh s + length vs) then {} else dirty s i)"
    "\<forall>key f. facets (heap s') key = Some f \<longrightarrow>
          facets (heap s) key = Some f \<or> facet_within (fresh s) (fresh s + length vs) f"
proof -
  let ?fs = "case md_facets (metadata env) (case pred_facet md of Some c \<Rightarrow> c | None \<Rightarrow> []) of
               Some l \<Rightarrow> l | None \<Rightarrow> []"
  let ?s1 = "fold (setter_elem env ins md ?fs) vs s"
  have e: "s' = ?s1\<lparr>accessors := (accessors ?s1)((ins, pred_propertyName md) :=
        Some (Some (new_PredicateImpl (pred_propertyName md) ins value)))\<rparr>"
    using assms by (simp add: setter_def Let_def)
  note l = setter_loop_frame [of env ins md ?fs vs s]
  show "fresh s' = fresh s + length vs" "arrays (heap s') = arrays (heap s)"
    "storage s' = storage s" "produced s' = produced s" "returns s' = returns s"
    "accessors s' = (accessors s)((ins, pred_propertyName md) :=
        Some (Some (new_PredicateImpl (pred_propertyName md) ins value)))"
    using l unfolding e by simp_all
  show "\<forall>i. dirty s' i = (if i \<in> set vs \<or> (fresh s \<le> i \<and> i < fresh s + length vs) then {} else dirty s i)"
    using l unfolding e by simp
  show "\<forall>key f. facets (heap s') key = Some f \<longrightarrow>
          facets (heap s) key = Some f \<or> facet_within (fresh s) (fresh s + length vs) f"
    using l unfolding e by simp
qed

subsection \<open>Extension and invariant\<close>

lemma tr_ext_refl: "tr_ext X s s"
  by (simp add: tr_ext_def)

lemma tr_ext_trans:
  assumes "tr_ext X a b" and "tr_ext Y b c"
  shows "tr_ext (X \<union> Y) a c"
proof -
  from assms have f: "fresh a \<le> fresh b" "fresh b \<le> fresh c" by (simp_all add: tr_ext_def)
  have 1: "arrays (heap c) x = arrays (heap a) x" if "x < fresh a" for x
    using assms f that by (simp add: tr_ext_def)
  have 2: "dirty c i \<subseteq> dirty a i" if "i < fresh a" "i \<notin> X \<union> Y" for i
  proof -
    from that f have "i < fresh b" by simp
    with assms(2) that(2) have "dirty c i \<subseteq> dirty b i" by (simp add: tr_ext_def)
    moreover from assms(1) that have "dirty b i \<subseteq> dirty a i" by (simp add: tr_ext_def)
    ultimately show ?thesis by simp
  qed
  have 3: "storage c x = Some y" if "storage a x = Some y" for x y
    using assms that by (simp add: tr_ext_def)
  from f 1 2 3 show ?thesis unfolding tr_ext_def by (intro conjI allI impI) auto
qed

lemma tr_ext_mono: "tr_ext X a b \<Longrightarrow> X \<subseteq> Y \<Longrightarrow> tr_ext Y a b"
  unfolding tr_ext_def by blast

lemma tr_ext_new: "tr_ext X a b \<Longrightarrow> (\<And>i. i \<in> X \<Longrightarrow> fresh a \<le> i) \<Longrightarrow> tr_ext {} a b"
  unfolding tr_ext_def by (metis empty_iff not_less)

lemma tr_ext_trans0: "tr_ext {} a b \<Longrightarrow> tr_ext {} b c \<Longrightarrow> tr_ext {} a c"
  using tr_ext_trans [of "{}" a b "{}" c] by simp

lemma tr_invI:
  assumes "f0 \<le> fresh s"
    and "\<And>a ia. (a, ia) \<in> set (produced s) \<Longrightarrow> storage s a = Some ia"
    and "\<And>a ia. (a, ia) \<in> set (returns s) \<Longrightarrow> storage s a = Some ia"
    and "\<And>a ia. storage s a = Some ia \<Longrightarrow>
           (a, ia) \<in> set (produced s) \<and> f0 \<le> ia \<and> ia < fresh s
           \<and> (\<forall>v\<in>set (arrays (heap s) ia). f0 \<le> v \<and> v < fresh s)"
    and "distinct (map fst (produced s))"
    and "\<And>i. fresh s \<le> i \<Longrightarrow> dirty s i = {}"
    and "\<And>i p c. f0 \<le> i \<Longrightarrow> accessors s (i, p) = Some (Some c) \<Longrightarrow>
           p_diff c = {} \<and> (\<exists>a. (a, p_data c) \<in> set (returns s))"
    and "\<And>ns ow c f. f0 \<le> ow \<Longrightarrow> facets (heap s) (ns, ow, c) = Some f \<Longrightarrow> facet_within f0 (fresh s) f"
  shows "tr_inv f0 s"
  unfolding tr_inv_def using assms by (intro conjI allI impI; (elim conjE)?) blast+

lemma tr_inv_fresh: "tr_inv f0 s \<Longrightarrow> f0 \<le> fresh s"
  by (simp add: tr_inv_def)

lemma tr_inv_produced: "tr_inv f0 s \<Longrightarrow> (a, ia) \<in> set (produced s) \<Longrightarrow> storage s a = Some ia"
  unfolding tr_inv_def by blast

lemma tr_inv_ret: "tr_inv f0 s \<Longrightarrow> (a, ia) \<in> set (returns s) \<Longrightarrow> storage s a = Some ia"
  unfolding tr_inv_def by blast

lemma tr_inv_storage:
  "tr_inv f0 s \<Longrightarrow> storage s a = Some ia \<Longrightarrow>
     (a, ia) \<in> set (produced s) \<and> f0 \<le> ia \<and> ia < fresh s
     \<and> (\<forall>v\<in>set (arrays (heap s) ia). f0 \<le> v \<and> v < fresh s)"
  unfolding tr_inv_def by blast

lemma tr_inv_distinct: "tr_inv f0 s \<Longrightarrow> distinct (map fst (produced s))"
  by (simp add: tr_inv_def)

lemma tr_inv_unalloc: "tr_inv f0 s \<Longrightarrow> fresh s \<le> i \<Longrightarrow> dirty s i = {}"
  by (simp add: tr_inv_def)

lemma tr_inv_acc:
  "tr_inv f0 s \<Longrightarrow> f0 \<le> i \<Longrightarrow> accessors s (i, p) = Some (Some c) \<Longrightarrow>
     p_diff c = {} \<and> (\<exists>a. (a, p_data c) \<in> set (returns s))"
  unfolding tr_inv_def by (elim conjE) blast

lemma tr_inv_facets:
  "tr_inv f0 s \<Longrightarrow> f0 \<le> ow \<Longrightarrow> facets (heap s) (ns, ow, c) = Some f \<Longrightarrow> facet_within f0 (fresh s) f"
  unfolding tr_inv_def by (elim conjE) blast

lemma tr_inv_returns:
  assumes inv: "tr_inv f0 s" and st: "storage s a = Some ia"
  shows "tr_inv f0 (s\<lparr>returns := returns s @ [(a, ia)]\<rparr>)"
    and "tr_ext {} s (s\<lparr>returns := returns s @ [(a, ia)]\<rparr>)"
proof -
  let ?s' = "s\<lparr>returns := returns s @ [(a, ia)]\<rparr>"
  show "tr_ext {} s ?s'" by (simp add: tr_ext_def)
  show "tr_inv f0 ?s'"
  proof (rule tr_invI)
    show "f0 \<le> fresh ?s'" using tr_inv_fresh [OF inv] by simp
    show "storage ?s' x = Some y" if "(x, y) \<in> set (produced ?s')" for x y
      using tr_inv_produced [OF inv, of x y] that by simp
    show "storage ?s' x = Some y" if "(x, y) \<in> set (returns ?s')" for x y
      using tr_inv_ret [OF inv, of x y] that st by auto
    show "(x, y) \<in> set (produced ?s') \<and> f0 \<le> y \<and> y < fresh ?s'
           \<and> (\<forall>v\<in>set (arrays (heap ?s') y). f0 \<le> v \<and> v < fresh ?s')"
      if "storage ?s' x = Some y" for x y
      using tr_inv_storage [OF inv, of x y] that by simp
    show "distinct (map fst (produced ?s'))" using tr_inv_distinct [OF inv] by simp
    show "dirty ?s' i = {}" if "fresh ?s' \<le> i" for i
      using tr_inv_unalloc [OF inv, of i] that by simp
    show "p_diff c = {} \<and> (\<exists>x. (x, p_data c) \<in> set (returns ?s'))"
      if "f0 \<le> i" "accessors ?s' (i, p) = Some (Some c)" for i p c
      using tr_inv_acc [OF inv, of i p c] that by auto
    show "facet_within f0 (fresh ?s') f" if "f0 \<le> ow" "facets (heap ?s') (ns, ow, c) = Some f" for ns ow c f
      using tr_inv_facets [OF inv, of ow ns c f] that by simp
  qed
qed

lemma tr_inv_marks_only:
  assumes inv: "tr_inv f0 s" and m: "marks_only ins s s'" and "ins < fresh s"
  shows "tr_inv f0 s'" and "tr_ext {ins} s s'"
proof -
  from m have e: "heap s' = heap s" "fresh s' = fresh s" "accessors s' = accessors s"
    "storage s' = storage s" "produced s' = produced s" "returns s' = returns s"
    and d: "\<And>i. i \<noteq> ins \<Longrightarrow> dirty s' i = dirty s i"
    by (simp_all add: marks_only_def)
  from d show "tr_ext {ins} s s'" by (simp add: tr_ext_def e)
  show "tr_inv f0 s'"
  proof (rule tr_invI)
    show "f0 \<le> fresh s'" using tr_inv_fresh [OF inv] e by simp
    show "storage s' x = Some y" if "(x, y) \<in> set (produced s')" for x y
      using tr_inv_produced [OF inv, of x y] that e by simp
    show "storage s' x = Some y" if "(x, y) \<in> set (returns s')" for x y
      using tr_inv_ret [OF inv, of x y] that e by simp
    show "(x, y) \<in> set (produced s') \<and> f0 \<le> y \<and> y < fresh s'
           \<and> (\<forall>v\<in>set (arrays (heap s') y). f0 \<le> v \<and> v < fresh s')"
      if "storage s' x = Some y" for x y
      using tr_inv_storage [OF inv, of x y] that e by simp
    show "distinct (map fst (produced s'))" using tr_inv_distinct [OF inv] e by simp
    show "dirty s' i = {}" if "fresh s' \<le> i" for i
    proof -
      from that assms(3) e have "i \<noteq> ins" by simp
      with d have "dirty s' i = dirty s i" by simp
      with tr_inv_unalloc [OF inv, of i] that e show ?thesis by simp
    qed
    show "p_diff c = {} \<and> (\<exists>x. (x, p_data c) \<in> set (returns s'))"
      if "f0 \<le> i" "accessors s' (i, p) = Some (Some c)" for i p c
      using tr_inv_acc [OF inv, of i p c] that e by simp
    show "facet_within f0 (fresh s') f" if "f0 \<le> ow" "facets (heap s') (ns, ow, c) = Some f" for ns ow c f
      using tr_inv_facets [OF inv, of ow ns c f] that e by simp
  qed
qed

lemma tr_inv_trackPredicate:
  assumes inv: "tr_inv f0 s"
  shows "tr_inv f0 (trackPredicate ins md s)" and "tr_ext {} s (trackPredicate ins md s)"
proof -
  let ?s' = "trackPredicate ins md s"
  have e: "heap ?s' = heap s" "fresh ?s' = fresh s" "dirty ?s' = dirty s"
    "storage ?s' = storage s" "produced ?s' = produced s" "returns ?s' = returns s"
    "accessors ?s' = (accessors s)((ins, pred_propertyName md) := Some None)"
    by (simp_all add: trackPredicate_def)
  show "tr_ext {} s ?s'" by (simp add: tr_ext_def e)
  show "tr_inv f0 ?s'"
  proof (rule tr_invI)
    show "f0 \<le> fresh ?s'" using tr_inv_fresh [OF inv] e by simp
    show "storage ?s' x = Some y" if "(x, y) \<in> set (produced ?s')" for x y
      using tr_inv_produced [OF inv, of x y] that e by simp
    show "storage ?s' x = Some y" if "(x, y) \<in> set (returns ?s')" for x y
      using tr_inv_ret [OF inv, of x y] that e by simp
    show "(x, y) \<in> set (produced ?s') \<and> f0 \<le> y \<and> y < fresh ?s'
           \<and> (\<forall>v\<in>set (arrays (heap ?s') y). f0 \<le> v \<and> v < fresh ?s')"
      if "storage ?s' x = Some y" for x y
      using tr_inv_storage [OF inv, of x y] that e by simp
    show "distinct (map fst (produced ?s'))" using tr_inv_distinct [OF inv] e by simp
    show "dirty ?s' i = {}" if "fresh ?s' \<le> i" for i
      using tr_inv_unalloc [OF inv, of i] that e by simp
    show "p_diff c = {} \<and> (\<exists>x. (x, p_data c) \<in> set (returns ?s'))"
      if "f0 \<le> i" "accessors ?s' (i, p) = Some (Some c)" for i p c
      using tr_inv_acc [OF inv, of i p c] that e by (simp split: if_splits)
    show "facet_within f0 (fresh ?s') f" if "f0 \<le> ow" "facets (heap ?s') (ns, ow, c) = Some f" for ns ow c f
      using tr_inv_facets [OF inv, of ow ns c f] that e by simp
  qed
qed

lemma tr_inv_alloc:
  assumes inv: "tr_inv f0 s" and miss: "storage s a = None"
    and al: "plainToClass_array env cls os es s = (ia, st1)"
    and st2: "st2 = st1\<lparr>storage := (storage st1)(a \<mapsto> ia), produced := produced st1 @ [(a, ia)]\<rparr>"
  shows "tr_inv f0 st2" and "tr_ext {} s st2"
    and "arrays (heap st2) ia = [fresh s ..< fresh s + length es]"
    and "storage st2 a = Some ia" and "ia = fresh s + length es" and "fresh st2 = Suc ia"
    and "dirty st2 = dirty s"
proof -
  note f = plainToClass_array_frame [OF al]
  have e: "fresh st2 = Suc ia" "dirty st2 = dirty s" "accessors st2 = accessors s"
    "returns st2 = returns s" "produced st2 = produced s @ [(a, ia)]"
    "storage st2 = (storage s)(a \<mapsto> ia)" "facets (heap st2) = facets (heap s)"
    "arrays (heap st2) = (arrays (heap s))(ia := [fresh s ..< fresh s + length es])"
    using f by (simp_all add: st2)
  show ia: "ia = fresh s + length es" by (rule f(1))
  show "fresh st2 = Suc ia" by (rule e(1))
  show "dirty st2 = dirty s" by (rule e(2))
  show "storage st2 a = Some ia" by (simp add: e)
  show "arrays (heap st2) ia = [fresh s ..< fresh s + length es]" by (simp add: e)
  have old: "x \<noteq> a" if "storage s x = Some y" for x y using that miss by auto
  have f0: "f0 \<le> fresh s" using inv by (rule tr_inv_fresh)
  show "tr_ext {} s st2"
    unfolding tr_ext_def e using ia old by auto
  show "tr_inv f0 st2"
  proof (rule tr_invI)
    show "f0 \<le> fresh st2" using f0 ia e by simp
    show "storage st2 x = Some y" if "(x, y) \<in> set (produced st2)" for x y
    proof (cases "(x, y) = (a, ia)")
      case True
      then show ?thesis by (simp add: e)
    next
      case False
      with that have "(x, y) \<in> set (produced s)" by (auto simp: e)
      then have "storage s x = Some y" using inv by (simp add: tr_inv_produced)
      with old [OF this] show ?thesis by (simp add: e)
    qed
    show "storage st2 x = Some y" if "(x, y) \<in> set (returns st2)" for x y
    proof -
      from that have "storage s x = Some y" using inv by (simp add: e tr_inv_ret)
      with old [OF this] show ?thesis by (simp add: e)
    qed
    show "(x, y) \<in> set (produced st2) \<and> f0 \<le> y \<and> y < fresh st2
           \<and> (\<forall>v\<in>set (arrays (heap st2) y). f0 \<le> v \<and> v < fresh st2)"
      if "storage st2 x = Some y" for x y
    proof (cases "x = a")
      case True
      with that have "y = ia" by (simp add: e)
      with True f0 ia show ?thesis by (auto simp: e)
    next
      case False
      with that have "storage s x = Some y" by (simp add: e)
      from tr_inv_storage [OF inv this] have
        "(x, y) \<in> set (produced s)" "f0 \<le> y" "y < fresh s"
        "\<forall>v\<in>set (arrays (heap s) y). f0 \<le> v \<and> v < fresh s" by simp_all
      moreover from this(3) ia have "y \<noteq> ia" by simp
      ultimately show ?thesis using ia by (auto simp: e)
    qed
    show "distinct (map fst (produced st2))"
    proof -
      have "a \<notin> fst ` set (produced s)"
      proof
        assume "a \<in> fst ` set (produced s)"
        then obtain y where "(a, y) \<in> set (produced s)" by auto
        then have "storage s a = Some y" using inv by (simp add: tr_inv_produced)
        with miss show False by simp
      qed
      with tr_inv_distinct [OF inv] show ?thesis by (simp add: e)
    qed
    show "dirty st2 i = {}" if "fresh st2 \<le> i" for i
      using tr_inv_unalloc [OF inv, of i] that ia by (simp add: e)
    show "p_diff c = {} \<and> (\<exists>x. (x, p_data c) \<in> set (returns st2))"
      if "f0 \<le> i" "accessors st2 (i, p) = Some (Some c)" for i p c
      using tr_inv_acc [OF inv, of i p c] that by (simp add: e)
    show "facet_within f0 (fresh st2) f" if "f0 \<le> ow" "facets (heap st2) (ns, ow, c) = Some f" for ns ow c f
      using tr_inv_facets [OF inv, of ow ns c f] that ia by (auto simp: e intro: facet_within_mono)
  qed
qed

lemma tr_inv_setter:
  assumes inv: "tr_inv f0 s" and ret: "(a, v) \<in> set (returns s)"
    and s': "s' = setter env ins md v s"
  shows "tr_inv f0 s'" and "tr_ext {} s s'"
    and "\<forall>i\<in>set (arrays (heap s) v). dirty s' i = {}"
    and "\<forall>i. fresh s \<le> i \<longrightarrow> dirty s' i = {}"
proof -
  let ?vs = "arrays (heap s) v"
  note f = setter_frame [OF s' refl]
  have d: "dirty s' i = (if i \<in> set ?vs \<or> (fresh s \<le> i \<and> i < fresh s + length ?vs) then {} else dirty s i)" for i
    using f(7) by blast
  have f0: "f0 \<le> fresh s" using inv by (rule tr_inv_fresh)
  show "\<forall>i\<in>set ?vs. dirty s' i = {}" by (simp add: d)
  show un: "\<forall>i. fresh s \<le> i \<longrightarrow> dirty s' i = {}"
    using tr_inv_unalloc [OF inv] by (simp add: d)
  show "tr_ext {} s s'"
    unfolding tr_ext_def by (simp add: f(1,2,3) d)
  show "tr_inv f0 s'"
  proof (rule tr_invI)
    show "f0 \<le> fresh s'" using f0 by (simp add: f(1))
    show "storage s' x = Some y" if "(x, y) \<in> set (produced s')" for x y
      using tr_inv_produced [OF inv, of x y] that by (simp add: f)
    show "storage s' x = Some y" if "(x, y) \<in> set (returns s')" for x y
      using tr_inv_ret [OF inv, of x y] that by (simp add: f)
    show "(x, y) \<in> set (produced s') \<and> f0 \<le> y \<and> y < fresh s'
           \<and> (\<forall>v\<in>set (arrays (heap s') y). f0 \<le> v \<and> v < fresh s')"
      if "storage s' x = Some y" for x y
      using tr_inv_storage [OF inv, of x y] that by (auto simp: f(1,2,3,4))
    show "distinct (map fst (produced s'))" using tr_inv_distinct [OF inv] by (simp add: f)
    show "dirty s' i = {}" if "fresh s' \<le> i" for i
      using un that by (simp add: f(1))
    show "p_diff c = {} \<and> (\<exists>x. (x, p_data c) \<in> set (returns s'))"
      if "f0 \<le> i" "accessors s' (i, p) = Some (Some c)" for i p c
    proof (cases "(i, p) = (ins, pred_propertyName md)")
      case True
      with that(2) have "c = new_PredicateImpl (pred_propertyName md) ins v" by (simp add: f(6))
      then have "p_diff c = {}" "p_data c = v" by (simp_all add: new_PredicateImpl_def)
      with ret show ?thesis by (auto simp: f(5))
    next
      case False
      with that(2) have "accessors s (i, p) = Some (Some c)" by (auto simp: f(6) split: if_splits)
      from tr_inv_acc [OF inv that(1) this] show ?thesis by (simp add: f(5))
    qed
    show "facet_within f0 (fresh s') g" if "f0 \<le> ow" "facets (heap s') (ns, ow, c) = Some g" for ns ow c g
    proof -
      from f(8) that(2) have "facets (heap s) (ns, ow, c) = Some g
          \<or> facet_within (fresh s) (fresh s + length ?vs) g" by blast
      then show ?thesis
      proof
        assume "facets (heap s) (ns, ow, c) = Some g"
        from tr_inv_facets [OF inv that(1) this] show ?thesis
          by (rule facet_within_mono) (simp_all add: f(1))
      next
        assume "facet_within (fresh s) (fresh s + length ?vs) g"
        then show ?thesis using f0 by (rule facet_within_mono) (simp_all add: f(1))
      qed
    qed
  qed
qed

lemma forEachE_inv:
  assumes "forEachE f xs s = Some (Inr s')" and "I s"
    and "\<And>x u u'. x \<in> set xs \<Longrightarrow> I u \<Longrightarrow> f x u = Some (Inr u') \<Longrightarrow> I u'"
  shows "I s'"
  using assms
proof (induction xs arbitrary: s)
  case Nil
  then show ?case by simp
next
  case (Cons x xs)
  from Cons.prems(1) obtain s1 where s1: "f x s = Some (Inr s1)" "forEachE f xs s1 = Some (Inr s')"
    by (auto split: option.splits sum.splits)
  from Cons.prems(3) [OF _ Cons.prems(2) s1(1)] have "I s1" by simp
  show ?case
  proof (rule Cons.IH [OF s1(2) \<open>I s1\<close>])
    fix y u u' assume "y \<in> set xs" "I u" "f y u = Some (Inr u')"
    then show "I u'" using Cons.prems(3) [of y u u'] by simp
  qed
qed

lemma clean_from_step:
  assumes c: "clean_from f {} u" and e: "tr_ext X u u'" and n: "clean_from (fresh u) {} u'"
    and x: "\<And>i. i \<in> X \<Longrightarrow> i < f"
  shows "clean_from f {} u'"
  unfolding clean_from_def
proof (intro allI impI)
  fix i assume i: "f \<le> i \<and> i \<notin> {}"
  show "dirty u' i = {}"
  proof (cases "i < fresh u")
    case True
    have "i \<notin> X"
    proof
      assume "i \<in> X"
      from x [OF this] i show False by simp
    qed
    with e True have "dirty u' i \<subseteq> dirty u i" by (simp add: tr_ext_def)
    moreover from c i have "dirty u i = {}" by (simp add: clean_from_def)
    ultimately show ?thesis by simp
  next
    case False
    with n show ?thesis by (simp add: clean_from_def)
  qed
qed

subsection \<open>The recursion\<close>

lemma visit_predicate_post:
  assumes IH: "\<And>cls v t r. recur cls v t = Some (Inr r) \<Longrightarrow> tr_inv f0 t \<Longrightarrow>
                 \<exists>a. v = JArray a \<and> call_post f0 t a r"
    and run: "visit_predicate recur env os ins raw pred t = Some (Inr t')"
    and inv: "tr_inv f0 t"
  shows "tr_inv f0 t' \<and> tr_ext {} t t' \<and> clean_from (fresh t) {} t'"
proof -
  let ?t1 = "trackPredicate ins pred t"
  let ?p = "case raw of ERecord r \<Rightarrow> field (os r) (pred_name pred) | EScalar s \<Rightarrow> None"
  have inv1: "tr_inv f0 ?t1" and ext1: "tr_ext {} t ?t1"
    using inv by (rule tr_inv_trackPredicate)+
  have fr: "fresh ?t1 = fresh t" by (simp add: trackPredicate_def)
  have c1: "clean_from (fresh t) {} ?t1"
    using tr_inv_unalloc [OF inv1] by (simp add: clean_from_def fr)
  have stop: ?thesis if "t' = ?t1"
    using that inv1 ext1 c1 by simp
  show ?thesis
  proof (cases ?p)
    case None
    with run have "t' = ?t1" by (simp add: visit_predicate_def Let_def)
    then show ?thesis by (rule stop)
  next
    case (Some v)
    show ?thesis
    proof (cases "v = JScalar []")
      case True
      with run Some have "t' = ?t1" by (simp add: visit_predicate_def Let_def)
      then show ?thesis by (rule stop)
    next
      case False
      with run Some have r: "(case recur (pred_type pred) v ?t1 of
                 Some (Inr (instances, st2)) \<Rightarrow> Some (Inr (setter env ins pred instances st2))
               | Some (Inl e) \<Rightarrow> Some (Inl e)
               | None \<Rightarrow> None) = Some (Inr t')"
        by (simp add: visit_predicate_def Let_def)
      then obtain ia t2 where rec: "recur (pred_type pred) v ?t1 = Some (Inr (ia, t2))"
        and t': "t' = setter env ins pred ia t2"
        by (auto split: option.splits sum.splits prod.splits)
      from IH [OF rec inv1] obtain a where "call_post f0 ?t1 a (ia, t2)" by blast
      then have ext2: "tr_ext {} ?t1 t2" and inv2: "tr_inv f0 t2"
        and ret: "(a, ia) \<in> set (returns t2)"
        and cf: "clean_from (fresh t) (set (arrays (heap t2) ia)) t2"
        by (simp_all add: call_post_def fr)
      note s = tr_inv_setter [OF inv2 ret t']
      have ext: "tr_ext {} t t'"
        using ext1 ext2 s(2) by (blast intro: tr_ext_trans0)
      have "dirty t' i = {}" if i: "fresh t \<le> i" for i
      proof (cases "i \<in> set (arrays (heap t2) ia)")
        case True
        with s(3) show ?thesis by blast
      next
        case False
        with cf i have z: "dirty t2 i = {}" by (simp add: clean_from_def)
        show ?thesis
        proof (cases "i < fresh t2")
          case True
          with s(2) have "dirty t' i \<subseteq> dirty t2 i" by (simp add: tr_ext_def)
          with z show ?thesis by simp
        next
          case False
          with s(4) show ?thesis by simp
        qed
      qed
      then have "clean_from (fresh t) {} t'" by (simp add: clean_from_def)
      with s(1) ext show ?thesis by simp
    qed
  qed
qed

lemma visit_instance_post:
  assumes IH: "\<And>cls v t r. recur cls v t = Some (Inr r) \<Longrightarrow> tr_inv f0 t \<Longrightarrow>
                 \<exists>a. v = JArray a \<and> call_post f0 t a r"
    and run: "visit_instance recur env os (ins, raw) t = Some (Inr t')"
    and inv: "tr_inv f0 t" and lt: "ins < fresh t"
  shows "tr_inv f0 t' \<and> tr_ext {ins} t t' \<and> clean_from (fresh t) {} t'"
proof -
  let ?t1 = "trackProperties env ins t"
  have m: "marks_only ins t ?t1" by (rule marks_only_trackProperties)
  have inv1: "tr_inv f0 ?t1" and ext1: "tr_ext {ins} t ?t1"
    using tr_inv_marks_only [OF inv m lt] by simp_all
  have fr: "fresh ?t1 = fresh t" using m by (simp add: marks_only_def)
  have c1: "clean_from (fresh t) {} ?t1"
    using tr_inv_unalloc [OF inv1] by (simp add: clean_from_def fr)
  show ?thesis
  proof (cases "md_predicates (metadata env) (class_of ?t1 ins)")
    case None
    with run have "t' = ?t1" by (simp add: visit_instance_def Let_def)
    with inv1 ext1 c1 show ?thesis by simp
  next
    case (Some preds)
    with run have loop: "forEachE (visit_predicate recur env os ins raw) preds ?t1 = Some (Inr t')"
      by (simp add: visit_instance_def Let_def)
    let ?I = "\<lambda>u. tr_inv f0 u \<and> tr_ext {} ?t1 u \<and> clean_from (fresh t) {} u"
    have "?I t'"
    proof (rule forEachE_inv [where I = ?I, OF loop])
      show "?I ?t1" using inv1 c1 by (simp add: tr_ext_refl)
    next
      fix pred u u'
      assume I: "?I u" and v: "visit_predicate recur env os ins raw pred u = Some (Inr u')"
      from I have iu: "tr_inv f0 u" and eu: "tr_ext {} ?t1 u" and cu: "clean_from (fresh t) {} u"
        by simp_all
      from visit_predicate_post [OF IH v iu]
      have p: "tr_inv f0 u'" "tr_ext {} u u'" "clean_from (fresh u) {} u'" by simp_all
      from eu p(2) have "tr_ext {} ?t1 u'" by (rule tr_ext_trans0)
      moreover from cu p(2,3) have "clean_from (fresh t) {} u'"
        by (rule clean_from_step) simp
      ultimately show "?I u'" using p(1) by simp
    qed
    then have "tr_inv f0 t'" "tr_ext {} ?t1 t'" "clean_from (fresh t) {} t'" by simp_all
    moreover from tr_ext_trans [OF ext1 this(2)] have "tr_ext {ins} t t'" by simp
    ultimately show ?thesis by simp
  qed
qed

lemma body_post:
  assumes IH: "\<And>cls v t r. recur cls v t = Some (Inr r) \<Longrightarrow> tr_inv f0 t \<Longrightarrow>
                 \<exists>a. v = JArray a \<and> call_post f0 t a r"
    and run: "plainToClassExecutor_body recur env os els cls (JArray a) s = Some (Inr (ia, s'))"
    and inv: "tr_inv f0 s"
  shows "call_post f0 s a (ia, s')"
proof (cases "storage s a")
  case (Some i0)
  with run have e: "ia = i0" "s' = s\<lparr>returns := returns s @ [(a, i0)]\<rparr>"
    by (auto simp: plainToClassExecutor_body_def)
  from tr_inv_returns [OF inv Some] have "tr_inv f0 s'" "tr_ext {} s s'" by (simp_all add: e)
  moreover have "storage s' a = Some ia" "(a, ia) \<in> set (returns s')" using Some by (simp_all add: e)
  moreover have "clean_from (fresh s) (set (arrays (heap s') ia)) s'"
    using tr_inv_unalloc [OF inv] by (simp add: clean_from_def e)
  ultimately show ?thesis by (simp add: call_post_def)
next
  case None
  obtain ia0 st1 where al: "plainToClass_array env cls os (els a) s = (ia0, st1)"
    by (cases "plainToClass_array env cls os (els a) s")
  define st2 where "st2 = st1\<lparr>storage := (storage st1)(a \<mapsto> ia0), produced := produced st1 @ [(a, ia0)]\<rparr>"
  let ?Il = "[fresh s ..< fresh s + length (els a)]"
  note A = tr_inv_alloc [OF inv None al st2_def]
  from run None al have r: "(case forEachE (visit_instance recur env os)
                          (zip (arrays (heap st2) ia0) (els a)) st2 of
                     Some (Inr st3) \<Rightarrow>
                       Some (Inr (ia0, st3\<lparr>returns := returns st3 @ [(a, ia0)]\<rparr>))
                   | Some (Inl e) \<Rightarrow> Some (Inl e)
                   | None \<Rightarrow> None) = Some (Inr (ia, s'))"
    by (simp add: plainToClassExecutor_body_def Let_def st2_def)
  then obtain s3 where loop: "forEachE (visit_instance recur env os)
                          (zip (arrays (heap st2) ia0) (els a)) st2 = Some (Inr s3)"
    and e: "ia = ia0" "s' = s3\<lparr>returns := returns s3 @ [(a, ia0)]\<rparr>"
    by (auto split: option.splits sum.splits)
  let ?I = "\<lambda>u. tr_inv f0 u \<and> tr_ext (set ?Il) st2 u \<and> clean_from (fresh st2) {} u"
  have "?I s3"
  proof (rule forEachE_inv [where I = ?I, OF loop])
    show "?I st2"
      using A(1) tr_inv_unalloc [OF A(1)] by (simp add: tr_ext_refl clean_from_def)
  next
    fix x u u'
    assume x: "x \<in> set (zip (arrays (heap st2) ia0) (els a))" and I: "?I u"
      and v: "visit_instance recur env os x u = Some (Inr u')"
    obtain ins raw where xe: "x = (ins, raw)" by (cases x)
    from x xe A(3) have mem: "ins \<in> set ?Il" by (auto dest: set_zip_leftD)
    from I have iu: "tr_inv f0 u" and eu: "tr_ext (set ?Il) st2 u"
      and cu: "clean_from (fresh st2) {} u" by simp_all
    from mem A(5,6) have l2: "ins < fresh st2" by simp
    moreover from eu have "fresh st2 \<le> fresh u" by (simp add: tr_ext_def)
    ultimately have lt: "ins < fresh u" by simp
    from visit_instance_post [OF IH v [unfolded xe] iu lt]
    have p: "tr_inv f0 u'" "tr_ext {ins} u u'" "clean_from (fresh u) {} u'" by simp_all
    from tr_ext_trans [OF eu p(2)] mem have "tr_ext (set ?Il) st2 u'"
      by (simp add: insert_absorb)
    moreover from cu p(2,3) have "clean_from (fresh st2) {} u'"
      by (rule clean_from_step) (use l2 in simp)
    ultimately show "?I u'" using p(1) by simp
  qed
  then have inv3: "tr_inv f0 s3" and ext3: "tr_ext (set ?Il) st2 s3"
    and c3: "clean_from (fresh st2) {} s3" by simp_all
  from ext3 A(4) have st3: "storage s3 a = Some ia0" by (simp add: tr_ext_def)
  from tr_inv_returns [OF inv3 st3] have inv': "tr_inv f0 s'" and ext4: "tr_ext {} s3 s'"
    by (simp_all add: e)
  from tr_ext_trans [OF A(2) ext3] have "tr_ext (set ?Il) s s3" by simp
  then have "tr_ext {} s s3" by (rule tr_ext_new) simp
  with ext4 have ext: "tr_ext {} s s'" by (blast intro: tr_ext_trans0)
  from A(5,6) have "ia0 < fresh st2" by simp
  with ext3 A(3) have arr: "arrays (heap s3) ia0 = ?Il" by (simp add: tr_ext_def)
  have "dirty s' i = {}" if i: "fresh s \<le> i" "i \<notin> set ?Il" for i
  proof (cases "i = ia0")
    case True
    from A(5) i(2) True have "ia0 \<notin> set ?Il" by simp
    with ext3 \<open>ia0 < fresh st2\<close> have "dirty s3 ia0 \<subseteq> dirty st2 ia0" by (simp add: tr_ext_def)
    moreover have "dirty st2 ia0 = {}"
      using tr_inv_unalloc [OF inv, of ia0] A(5,7) by simp
    ultimately show ?thesis using True by (simp add: e)
  next
    case False
    with i A(5,6) have "fresh st2 \<le> i" by simp
    with c3 show ?thesis by (simp add: clean_from_def e)
  qed
  then have "clean_from (fresh s) (set (arrays (heap s') ia)) s'"
    using arr by (simp add: clean_from_def e)
  moreover have "storage s' a = Some ia" "(a, ia) \<in> set (returns s')" using st3 by (simp_all add: e)
  ultimately show ?thesis using inv' ext by (simp add: call_post_def)
qed

lemma plainToClassExecutor_post:
  "plainToClassExecutor n env os els cls v s = Some (Inr r) \<Longrightarrow> tr_inv f0 s \<Longrightarrow>
   \<exists>a. v = JArray a \<and> call_post f0 s a r"
proof (induction n arbitrary: cls v s r)
  case 0
  then show ?case by simp
next
  case (Suc n)
  from Suc.prems(1) have run:
    "plainToClassExecutor_body (plainToClassExecutor n env os els) env os els cls v s = Some (Inr r)"
    by simp
  show ?case
  proof (cases v)
    case (JArray a)
    obtain ia s' where r: "r = (ia, s')" by (cases r)
    have "call_post f0 s a (ia, s')"
    proof (rule body_post [OF _ _ Suc.prems(2)])
      show "plainToClassExecutor_body (plainToClassExecutor n env os els) env os els cls (JArray a) s
              = Some (Inr (ia, s'))"
        using run JArray r by simp
    next
      fix cls' v' t r'
      assume "plainToClassExecutor n env os els cls' v' t = Some (Inr r')" "tr_inv f0 t"
      then show "\<exists>a. v' = JArray a \<and> call_post f0 t a r'" by (rule Suc.IH)
    qed
    with JArray r show ?thesis by simp
  next
    case (JScalar x)
    with run show ?thesis by (simp add: plainToClassExecutor_body_def)
  next
    case (JObject x)
    with run show ?thesis by (simp add: plainToClassExecutor_body_def)
  qed
qed

subsection \<open>The transform returns\<close>

lemma tr_inv_start:
  assumes "wf_mstate st"
  shows "tr_inv (fresh st) (st\<lparr>storage := Map.empty, produced := [], returns := []\<rparr>)"
proof (rule tr_invI)
  let ?s = "st\<lparr>storage := Map.empty, produced := [], returns := []\<rparr>"
  show "fresh st \<le> fresh ?s" by simp
  show "storage ?s x = Some y" if "(x, y) \<in> set (produced ?s)" for x y using that by simp
  show "storage ?s x = Some y" if "(x, y) \<in> set (returns ?s)" for x y using that by simp
  show "(x, y) \<in> set (produced ?s) \<and> fresh st \<le> y \<and> y < fresh ?s
           \<and> (\<forall>v\<in>set (arrays (heap ?s) y). fresh st \<le> v \<and> v < fresh ?s)"
    if "storage ?s x = Some y" for x y using that by simp
  show "distinct (map fst (produced ?s))" by simp
  show "dirty ?s i = {}" if "fresh ?s \<le> i" for i
    using assms that by (simp add: wf_mstate_def)
  show "p_diff c = {} \<and> (\<exists>x. (x, p_data c) \<in> set (returns ?s))"
    if "fresh st \<le> i" "accessors ?s (i, p) = Some (Some c)" for i p c
    using assms that by (simp add: wf_mstate_def)
  show "facet_within (fresh st) (fresh ?s) f"
    if "fresh st \<le> ow" "facets (heap ?s) (ns, ow, c) = Some f" for ns ow c f
    using assms that by (simp add: wf_mstate_def)
qed

lemma transform_post:
  assumes "transform n env os els cls plain st = Some (Inr (ia, st'))" and "wf_mstate st"
  shows "call_post (fresh st) (st\<lparr>storage := Map.empty, produced := [], returns := []\<rparr>) plain (ia, st')"
proof -
  let ?s = "st\<lparr>storage := Map.empty, produced := [], returns := []\<rparr>"
  from assms(1) have "plainToClassExecutor n env os els cls (JArray plain) ?s = Some (Inr (ia, st'))"
    by (simp add: transform_def)
  from plainToClassExecutor_post [OF this tr_inv_start [OF assms(2)]]
  show ?thesis by simp
qed









subsection \<open>What the instances are made of\<close>

lemma pruned_refl: "pruned fs fs"
  unfolding pruned_def by (rule exI [of _ "{}"]) simp













lemma new_instance_props:
  "class_of (snd (new_instance env cls plain st)) = (class_of st)(fresh st := cls)"
  "props (snd (new_instance env cls plain st)) = (props st)(fresh st := plainToClass_props env cls plain)"
  by (simp_all add: new_instance_def)

lemma new_instance_ext: "props_ext st (snd (new_instance env cls plain st))"
  by (simp add: props_ext_def new_instance_def pruned_refl)

lemma new_instance_made:
  "made env os (snd (new_instance env cls (os r) st)) cls (fresh st) (ERecord r)"
  "made env os (snd (new_instance env ''String'' [] st)) cls (fresh st) (EScalar x)"
  by (simp_all add: made_def new_instance_def pruned_refl)













section \<open>Properties of the builder\<close>





lemma fold_purge_dirty:
  "dirty (fold purgeInstance xs s) i = (if i \<in> set xs then {} else dirty s i)"
  by (induction xs arbitrary: s) (auto simp: purgeInstance_def)









end
